theory Spec2Isabelle
  imports Main "HOL-Library.Word" "HOL-Library.Multiset" "HOL-Library.Stream"
begin

section \<open>The Markov chain text generator of main.c\<close>

text \<open>
  A shallow embedding of \<^verbatim>\<open>main.c\<close>: the hashed prefix table \<^verbatim>\<open>statetab\<close>, \<^verbatim>\<open>hash\<close>,
  \<^verbatim>\<open>lookup\<close>, \<^verbatim>\<open>add_suffix\<close>, \<^verbatim>\<open>add\<close>, \<^verbatim>\<open>build\<close> and \<^verbatim>\<open>generate\<close>.

  Conventions of the model.
  \<^item> A C string is modelled by the list of the characters before its terminating NUL, so
    \<^verbatim>\<open>strcmp(a, b) == 0\<close> is equality of lists and \<^verbatim>\<open>strdup_safe\<close> returns its argument.
    The only place where raw bytes become a C string is the buffer \<^verbatim>\<open>buf\<close> that
    \<^verbatim>\<open>fscanf\<close> fills; the cut at the first NUL is written out there.
  \<^item> \<^verbatim>\<open>NPREF\<close> is 2, and \<^verbatim>\<open>generate\<close> shifts its window with the two assignments
    \<^verbatim>\<open>prefix[0] = prefix[1]; prefix[1] = suf->word\<close>; the array \<^verbatim>\<open>char *prefix[NPREF]\<close>
    is a pair of strings.
  \<^item> \<^verbatim>\<open>unsigned int\<close> is 32 bits wide; the hash wraps around modulo \<open>2 ^ 32\<close>.
  \<^item> \<^verbatim>\<open>malloc\<close> is taken to succeed: the branches that print "malloc failed" and call
    \<^verbatim>\<open>exit(1)\<close> are not part of the model.
  \<^item> The counters \<^verbatim>\<open>n\<close>, \<^verbatim>\<open>r\<close>, \<^verbatim>\<open>j\<close> of \<^verbatim>\<open>generate\<close> count list nodes and are natural
    numbers; \<^verbatim>\<open>i\<close> and \<^verbatim>\<open>nwords\<close> are C ints that may be negative (\<^verbatim>\<open>atoi\<close>) and are
    integers. \<^verbatim>\<open>i + 1\<close> cannot overflow, as \<^verbatim>\<open>i < nwords\<close> holds where it is computed.
  \<^item> A dereference of a null pointer is a result of its own (\<open>None\<close>, \<open>SegFault\<close>), so
    that "does not crash" is a statement about the model.
\<close>

subsection \<open>Constants\<close>

definition NPREF :: nat where
  "NPREF = 2"

definition MAX_WORD :: nat where
  "MAX_WORD = 100"

definition HASHSIZE :: nat where
  "HASHSIZE = 4093"

definition NONWORD :: string where
  "NONWORD = [CHR 0x0A]"

subsection \<open>Data\<close>

type_synonym prefix_t = "string \<times> string"

text \<open>
  \<^verbatim>\<open>struct State\<close>: the prefix and the linked list of suffixes, head first. The field
  \<^verbatim>\<open>next\<close> of both structs is the list structure itself: a \<^verbatim>\<open>Suffix *\<close> is the list of the
  words from that node on (\<open>[]\<close> for \<^verbatim>\<open>NULL\<close>), and a bucket of \<^verbatim>\<open>statetab\<close> is the list of
  the states of its chain, head first.
\<close>

record State =
  prefix :: prefix_t
  suffixes :: "string list"

text \<open>
  \<^verbatim>\<open>State *statetab[HASHSIZE]\<close>, a global that starts zeroed. Only the indices below
  \<^verbatim>\<open>HASHSIZE\<close> are ever read or written.
\<close>

type_synonym statetab = "nat \<Rightarrow> State list"

definition statetab_init :: statetab where
  "statetab_init = (\<lambda>h. [])"

text \<open>
  A \<^verbatim>\<open>State *\<close> that is not null is the bucket and the position in its chain. A position
  is read only before the next insertion into the table, as in the source, where the
  pointer \<^verbatim>\<open>lookup\<close> returns is used at once.
\<close>

type_synonym State_ptr = "nat \<times> nat"

subsection \<open>hash\<close>

definition hash_step :: "32 word \<Rightarrow> char \<Rightarrow> 32 word" where
  "hash_step h c = h * 31 + of_nat (of_char c)"

definition hash :: "prefix_t \<Rightarrow> nat" where
  "hash s = unat (foldl hash_step (foldl hash_step 0 (fst s)) (snd s)) mod HASHSIZE"

subsection \<open>strdup\_safe\<close>

definition strdup_safe :: "string \<Rightarrow> string" where
  "strdup_safe s = s"

subsection \<open>lookup\<close>

text \<open>
  The scan of one chain: the position of the first state whose two prefix words both
  compare equal, \<open>None\<close> when the scan reaches \<^verbatim>\<open>NULL\<close>.
\<close>

fun find_state :: "prefix_t \<Rightarrow> State list \<Rightarrow> nat option" where
  "find_state p [] = None"
| "find_state p (sp # rest) =
     (if fst p = fst (prefix sp) \<and> snd p = snd (prefix sp) then Some 0
      else map_option Suc (find_state p rest))"

definition lookup :: "statetab \<Rightarrow> prefix_t \<Rightarrow> bool \<Rightarrow> statetab \<times> State_ptr option" where
  "lookup tab p create =
     (let h = hash p in
      case find_state p (tab h) of
        Some i \<Rightarrow> (tab, Some (h, i))
      | None \<Rightarrow>
          if create
          then (tab(h := \<lparr>prefix = (strdup_safe (fst p), strdup_safe (snd p)), suffixes = []\<rparr> # tab h),
                Some (h, 0))
          else (tab, None))"

subsection \<open>add\_suffix and add\<close>

text \<open>
  \<^verbatim>\<open>add_suffix\<close> links the new node in front of the list. It reads \<^verbatim>\<open>sp->suffixes\<close>: on a
  null pointer, or one that points to no state, the program dies.
\<close>

definition add_suffix :: "statetab \<Rightarrow> State_ptr option \<Rightarrow> string \<Rightarrow> statetab option" where
  "add_suffix tab sp suffix =
     (case sp of
        None \<Rightarrow> None
      | Some (h, i) \<Rightarrow>
          if i < length (tab h)
          then Some (tab(h := (tab h)[i := (tab h ! i)\<lparr>suffixes := strdup_safe suffix # suffixes (tab h ! i)\<rparr>]))
          else None)"

text \<open>\<^verbatim>\<open>add\<close> returns the table and the window after the \<^verbatim>\<open>memmove\<close> and the assignment.\<close>

definition add :: "statetab \<Rightarrow> prefix_t \<Rightarrow> string \<Rightarrow> (statetab \<times> prefix_t) option" where
  "add tab p suffix =
     (case lookup tab p True of
        (tab1, sp) \<Rightarrow>
          (case add_suffix tab1 sp suffix of
             None \<Rightarrow> None
           | Some tab2 \<Rightarrow> Some (tab2, (snd p, suffix))))"

subsection \<open>build\<close>

definition isspace :: "char \<Rightarrow> bool" where
  "isspace c = (c \<in> {CHR '' '', CHR 0x09, CHR 0x0A, CHR 0x0B, CHR 0x0C, CHR 0x0D})"

text \<open>
  One call \<^verbatim>\<open>fscanf(f, "%99s", buf)\<close> on the rest of the file: white space is skipped;
  at the end of the file the call returns \<^verbatim>\<open>EOF\<close> (\<open>None\<close>); otherwise it stores at most
  \<open>MAX_WORD - 1\<close> characters that are not white space, and a NUL after them, and the
  result is the C string in the buffer with the rest of the file.
\<close>

definition fscanf_s :: "string \<Rightarrow> (string \<times> string) option" where
  "fscanf_s f =
     (let f1 = dropWhile isspace f in
      if f1 = [] then None
      else
        let field = take (MAX_WORD - 1) (takeWhile (\<lambda>c. \<not> isspace c) f1) in
        Some (takeWhile (\<lambda>c. c \<noteq> CHR 0x00) field, drop (length field) f1))"

text \<open>The words the loop \<^verbatim>\<open>while (fscanf(f, "%99s", buf) != EOF)\<close> passes to \<^verbatim>\<open>add\<close>.\<close>

function read_words :: "string \<Rightarrow> string list" where
  "read_words f =
     (case fscanf_s f of
        None \<Rightarrow> []
      | Some (buf, rest) \<Rightarrow> strdup_safe buf # read_words rest)"
  by pat_completeness auto
termination
proof (relation "measure length")
  show "wf (measure length)"
    by simp
next
  fix f :: string and x2 :: "string \<times> string" and buf rest :: string
  assume a: "fscanf_s f = Some x2" and x2: "(buf, rest) = x2"
  define f1 where "f1 = dropWhile isspace f"
  define field where "field = take (MAX_WORD - 1) (takeWhile (\<lambda>c. \<not> isspace c) f1)"
  from a have ne: "f1 \<noteq> []"
    by (auto simp: fscanf_s_def f1_def Let_def split: if_splits)
  then have "\<not> isspace (hd f1)"
    unfolding f1_def by (rule hd_dropWhile)
  with ne have "takeWhile (\<lambda>c. \<not> isspace c) f1 \<noteq> []"
    by (cases f1) auto
  then have pos: "0 < length field"
    by (simp add: field_def MAX_WORD_def)
  from a x2 ne have "rest = drop (length field) f1"
    by (auto simp: fscanf_s_def f1_def field_def Let_def split: if_splits)
  with pos ne have "length rest < length f1"
    by simp
  moreover have "length f1 \<le> length f"
    unfolding f1_def by (rule length_dropWhile_le)
  ultimately show "(rest, f) \<in> measure length"
    by simp
qed

declare read_words.simps [simp del]

text \<open>The calls of \<^verbatim>\<open>add\<close> in the loop, one for each word, on the table and the window.\<close>

fun add_words :: "statetab \<Rightarrow> prefix_t \<Rightarrow> string list \<Rightarrow> (statetab \<times> prefix_t) option" where
  "add_words tab p [] = Some (tab, p)"
| "add_words tab p (w # ws) =
     (case add tab p w of
        None \<Rightarrow> None
      | Some (tab1, p1) \<Rightarrow> add_words tab1 p1 ws)"

text \<open>
  \<^verbatim>\<open>build\<close> on a stream of words: the window starts as \<^verbatim>\<open>NONWORD\<close> twice, every word is
  added, and \<^verbatim>\<open>NONWORD\<close> is added last.
\<close>

definition build_words :: "statetab \<Rightarrow> string list \<Rightarrow> statetab option" where
  "build_words tab ws =
     (case add_words tab (NONWORD, NONWORD) ws of
        None \<Rightarrow> None
      | Some (tab1, p1) \<Rightarrow> map_option fst (add tab1 p1 NONWORD))"

definition build :: "statetab \<Rightarrow> string \<Rightarrow> statetab option" where
  "build tab f = build_words tab (read_words f)"

subsection \<open>generate\<close>

text \<open>
  The exits of the loop of \<^verbatim>\<open>generate\<close>: its three \<^verbatim>\<open>break\<close>s, the loop condition, and
  the dereference of a null \<^verbatim>\<open>suf\<close>.
\<close>

datatype stop =
  StoppedByMissingEntry | StoppedByEmptyBag | StoppedBySentinel | StoppedByLengthLimit | SegFault

text \<open>
  What a run of the loop leaves: the words printed, in order; the exit taken; and how
  many times the loop body was entered (a counter the source does not have, kept to
  state the bound on the iterations).
\<close>

record gen_result =
  emitted :: "string list"
  stopped :: stop
  iterations :: nat

text \<open>
  \<^verbatim>\<open>suf = sp->suffixes; for (j = 0; j < r; j++) suf = suf->next;\<close> and then \<^verbatim>\<open>suf->word\<close>.
\<close>

fun nth_suffix :: "string list \<Rightarrow> nat \<Rightarrow> string option" where
  "nth_suffix [] r = None"
| "nth_suffix (w # suf) 0 = Some w"
| "nth_suffix (w # suf) (Suc j) = nth_suffix suf j"

text \<open>
  The random source is the sequence of the values the successive calls of \<^verbatim>\<open>rand()\<close>
  return, none of them negative: a call takes the head and leaves the tail.
\<close>

function gen_loop :: "statetab \<Rightarrow> nat stream \<Rightarrow> int \<Rightarrow> int \<Rightarrow> prefix_t \<Rightarrow> gen_result" where
  "gen_loop tab rnd i nwords p =
     (if i < nwords then
        (case lookup tab p False of
           (tab1, None) \<Rightarrow> \<lparr>emitted = [], stopped = StoppedByMissingEntry, iterations = 1\<rparr>
         | (tab1, Some (h, k)) \<Rightarrow>
             (let sufs = suffixes (tab1 h ! k); n = length sufs in
              if n = 0 then \<lparr>emitted = [], stopped = StoppedByEmptyBag, iterations = 1\<rparr>
              else
                (case nth_suffix sufs (shd rnd mod n) of
                   None \<Rightarrow> \<lparr>emitted = [], stopped = SegFault, iterations = 1\<rparr>
                 | Some w \<Rightarrow>
                     if w = NONWORD
                     then \<lparr>emitted = [], stopped = StoppedBySentinel, iterations = 1\<rparr>
                     else
                       (let res = gen_loop tab1 (stl rnd) (i + 1) nwords (snd p, w) in
                        res\<lparr>emitted := w # emitted res, iterations := Suc (iterations res)\<rparr>))))
      else \<lparr>emitted = [], stopped = StoppedByLengthLimit, iterations = 0\<rparr>)"
  by pat_completeness auto
termination
  by (relation "measure (\<lambda>(tab, rnd, i, nwords, p). nat (nwords - i))") auto

declare gen_loop.simps [simp del]

definition generate :: "statetab \<Rightarrow> nat stream \<Rightarrow> int \<Rightarrow> gen_result" where
  "generate tab rnd nwords = gen_loop tab rnd 0 nwords (NONWORD, NONWORD)"

text \<open>The bytes on standard output: \<^verbatim>\<open>printf("%s ", ...)\<close> for each word, then a newline.\<close>

definition printed :: "gen_result \<Rightarrow> string" where
  "printed res = concat (map (\<lambda>w. w @ '' '') (emitted res)) @ [CHR 0x0A]"

subsection \<open>main: build, then generate\<close>

text \<open>
  \<^verbatim>\<open>main\<close> after its argument handling: \<^verbatim>\<open>build(f)\<close> on the zeroed table, then
  \<^verbatim>\<open>generate(nwords)\<close>. \<open>None\<close> is a crash while building.
\<close>

definition build_then_generate :: "string list \<Rightarrow> nat stream \<Rightarrow> int \<Rightarrow> gen_result option" where
  "build_then_generate ws rnd nwords =
     (case build_words statetab_init ws of
        None \<Rightarrow> None
      | Some tab \<Rightarrow> Some (generate tab rnd nwords))"

subsection \<open>The same program on cells and pointers\<close>

text \<open>
  A second embedding of \<^verbatim>\<open>lookup\<close>, \<^verbatim>\<open>add_suffix\<close>, \<^verbatim>\<open>add\<close>, \<^verbatim>\<open>build\<close> and \<^verbatim>\<open>generate\<close>, with
  the structs as cells in a memory and \<^verbatim>\<open>malloc\<close> handing out addresses. Two runs of the
  program differ in the addresses they get; this embedding is where that difference
  lives.
\<close>

text \<open>
  The cells of \<^verbatim>\<open>struct Suffix\<close> and \<^verbatim>\<open>struct State\<close> with their pointer fields; a pointer
  is an address, \<open>None\<close> for \<^verbatim>\<open>NULL\<close>. The field \<^verbatim>\<open>word\<close> is \<open>suffix_word\<close>, and the
  fields \<^verbatim>\<open>next\<close> are \<open>next_suffix\<close> and \<open>next_state\<close>.
\<close>

type_synonym addr = nat

record Suffix_cell =
  suffix_word :: string
  next_suffix :: "addr option"

record State_cell =
  cell_prefix :: prefix_t
  cell_suffixes :: "addr option"
  next_state :: "addr option"

text \<open>
  The memory of a run: the cells at their addresses, the array \<^verbatim>\<open>statetab\<close> of chain
  heads, and the addresses that the coming calls of \<^verbatim>\<open>malloc\<close> for a cell return, in order.
  The blocks that \<^verbatim>\<open>strdup_safe\<close> allocates hold strings, which stay values here.
\<close>

record memory =
  State_at :: "addr \<rightharpoonup> State_cell"
  Suffix_at :: "addr \<rightharpoonup> Suffix_cell"
  statetab_p :: "nat \<Rightarrow> addr option"
  malloc_addrs :: "addr stream"

definition memory_init :: "addr stream \<Rightarrow> memory" where
  "memory_init addrs =
     \<lparr>State_at = Map.empty, Suffix_at = Map.empty, statetab_p = (\<lambda>h. None), malloc_addrs = addrs\<rparr>"

definition malloc :: "memory \<Rightarrow> addr \<times> memory" where
  "malloc m = (shd (malloc_addrs m), m\<lparr>malloc_addrs := stl (malloc_addrs m)\<rparr>)"

text \<open>
  The loop \<^verbatim>\<open>for (; sp != NULL; sp = sp->next)\<close> of \<^verbatim>\<open>lookup\<close> on the cells. The outer
  \<open>None\<close> is a run that does not come back: a pointer to no cell, or a chain that never
  reaches \<^verbatim>\<open>NULL\<close>.
\<close>

partial_function (option) scan_chain :: "memory \<Rightarrow> prefix_t \<Rightarrow> addr option \<Rightarrow> addr option option" where
  "scan_chain m p sp =
     (case sp of
        None \<Rightarrow> Some None
      | Some a \<Rightarrow>
          (case State_at m a of
             None \<Rightarrow> None
           | Some c \<Rightarrow>
               if fst p = fst (cell_prefix c) \<and> snd p = snd (cell_prefix c) then Some (Some a)
               else scan_chain m p (next_state c)))"

definition lookup_p :: "memory \<Rightarrow> prefix_t \<Rightarrow> bool \<Rightarrow> (memory \<times> addr option) option" where
  "lookup_p m p create =
     (let h = hash p in
      case scan_chain m p (statetab_p m h) of
        None \<Rightarrow> None
      | Some (Some a) \<Rightarrow> Some (m, Some a)
      | Some None \<Rightarrow>
          if create
          then
            (case malloc m of
               (a, m1) \<Rightarrow>
                 Some (m1\<lparr>State_at := (State_at m1)(a \<mapsto>
                             \<lparr>cell_prefix = (strdup_safe (fst p), strdup_safe (snd p)),
                              cell_suffixes = None,
                              next_state = statetab_p m1 h\<rparr>),
                           statetab_p := (statetab_p m1)(h := Some a)\<rparr>,
                       Some a))
          else Some (m, None))"

text \<open>
  \<^verbatim>\<open>add_suffix\<close>: \<^verbatim>\<open>malloc\<close> first, then \<^verbatim>\<open>suf->next = sp->suffixes; sp->suffixes = suf\<close>.
\<close>

definition add_suffix_p :: "memory \<Rightarrow> addr option \<Rightarrow> string \<Rightarrow> memory option" where
  "add_suffix_p m sp suffix =
     (case malloc m of
        (b, m1) \<Rightarrow>
          (case sp of
             None \<Rightarrow> None
           | Some a \<Rightarrow>
               (case State_at m1 a of
                  None \<Rightarrow> None
                | Some c \<Rightarrow>
                    Some (m1\<lparr>Suffix_at := (Suffix_at m1)(b \<mapsto>
                                \<lparr>suffix_word = strdup_safe suffix, next_suffix = cell_suffixes c\<rparr>),
                              State_at := (State_at m1)(a \<mapsto> c\<lparr>cell_suffixes := Some b\<rparr>)\<rparr>))))"

definition add_p :: "memory \<Rightarrow> prefix_t \<Rightarrow> string \<Rightarrow> (memory \<times> prefix_t) option" where
  "add_p m p suffix =
     (case lookup_p m p True of
        None \<Rightarrow> None
      | Some (m1, sp) \<Rightarrow>
          (case add_suffix_p m1 sp suffix of
             None \<Rightarrow> None
           | Some m2 \<Rightarrow> Some (m2, (snd p, suffix))))"

fun add_words_p :: "memory \<Rightarrow> prefix_t \<Rightarrow> string list \<Rightarrow> (memory \<times> prefix_t) option" where
  "add_words_p m p [] = Some (m, p)"
| "add_words_p m p (w # ws) =
     (case add_p m p w of
        None \<Rightarrow> None
      | Some (m1, p1) \<Rightarrow> add_words_p m1 p1 ws)"

definition build_words_p :: "memory \<Rightarrow> string list \<Rightarrow> memory option" where
  "build_words_p m ws =
     (case add_words_p m (NONWORD, NONWORD) ws of
        None \<Rightarrow> None
      | Some (m1, p1) \<Rightarrow> map_option fst (add_p m1 p1 NONWORD))"

text \<open>
  The two walks of \<^verbatim>\<open>generate\<close> over a suffix list: the counting loop (with \<^verbatim>\<open>n++\<close>), and
  the \<open>r\<close> steps \<^verbatim>\<open>suf = suf->next\<close>.
\<close>

partial_function (option) count_suffixes :: "memory \<Rightarrow> addr option \<Rightarrow> nat \<Rightarrow> nat option" where
  "count_suffixes m suf n =
     (case suf of
        None \<Rightarrow> Some n
      | Some b \<Rightarrow>
          (case Suffix_at m b of
             None \<Rightarrow> None
           | Some sc \<Rightarrow> count_suffixes m (next_suffix sc) (n + 1)))"

fun walk_suffixes :: "memory \<Rightarrow> addr option \<Rightarrow> nat \<Rightarrow> addr option option" where
  "walk_suffixes m suf 0 = Some suf"
| "walk_suffixes m suf (Suc j) =
     (case suf of
        None \<Rightarrow> None
      | Some b \<Rightarrow>
          (case Suffix_at m b of
             None \<Rightarrow> None
           | Some sc \<Rightarrow> walk_suffixes m (next_suffix sc) j))"

definition crashed :: gen_result where
  "crashed = \<lparr>emitted = [], stopped = SegFault, iterations = 1\<rparr>"

function gen_loop_p :: "memory \<Rightarrow> nat stream \<Rightarrow> int \<Rightarrow> int \<Rightarrow> prefix_t \<Rightarrow> gen_result" where
  "gen_loop_p m rnd i nwords p =
     (if i < nwords then
        (case lookup_p m p False of
           None \<Rightarrow> crashed
         | Some (m1, None) \<Rightarrow> \<lparr>emitted = [], stopped = StoppedByMissingEntry, iterations = 1\<rparr>
         | Some (m1, Some a) \<Rightarrow>
             (case State_at m1 a of
                None \<Rightarrow> crashed
              | Some c \<Rightarrow>
                  (case count_suffixes m1 (cell_suffixes c) 0 of
                     None \<Rightarrow> crashed
                   | Some n \<Rightarrow>
                       if n = 0 then \<lparr>emitted = [], stopped = StoppedByEmptyBag, iterations = 1\<rparr>
                       else
                         (case walk_suffixes m1 (cell_suffixes c) (shd rnd mod n) of
                            None \<Rightarrow> crashed
                          | Some None \<Rightarrow> crashed
                          | Some (Some b) \<Rightarrow>
                              (case Suffix_at m1 b of
                                 None \<Rightarrow> crashed
                               | Some sc \<Rightarrow>
                                   if suffix_word sc = NONWORD
                                   then \<lparr>emitted = [], stopped = StoppedBySentinel, iterations = 1\<rparr>
                                   else
                                     (let res = gen_loop_p m1 (stl rnd) (i + 1) nwords
                                                  (snd p, suffix_word sc) in
                                      res\<lparr>emitted := suffix_word sc # emitted res,
                                          iterations := Suc (iterations res)\<rparr>))))))
      else \<lparr>emitted = [], stopped = StoppedByLengthLimit, iterations = 0\<rparr>)"
  by pat_completeness auto
termination
  by (relation "measure (\<lambda>(m, rnd, i, nwords, p). nat (nwords - i))") auto

declare gen_loop_p.simps [simp del]

definition generate_p :: "memory \<Rightarrow> nat stream \<Rightarrow> int \<Rightarrow> gen_result" where
  "generate_p m rnd nwords = gen_loop_p m rnd 0 nwords (NONWORD, NONWORD)"

text \<open>
  A run of \<^verbatim>\<open>main\<close> after its argument handling, on the memory in which \<^verbatim>\<open>malloc\<close>
  returns the given addresses.
\<close>

definition main_p :: "addr stream \<Rightarrow> string list \<Rightarrow> nat stream \<Rightarrow> int \<Rightarrow> gen_result option" where
  "main_p addrs ws rnd nwords =
     (case build_words_p (memory_init addrs) ws of
        None \<Rightarrow> None
      | Some m \<Rightarrow> Some (generate_p m rnd nwords))"

section \<open>Notions of the specification\<close>

text \<open>
  The suffix bag the generator reads for a window: what \<^verbatim>\<open>lookup(prefix, 0)\<close> returns,
  and the list \<^verbatim>\<open>sp->suffixes\<close> of that state, in the order the generator walks it.
\<close>

definition bag_of :: "statetab \<Rightarrow> prefix_t \<Rightarrow> string list option" where
  "bag_of tab p =
     (case lookup tab p False of
        (tab1, None) \<Rightarrow> None
      | (tab1, Some (h, k)) \<Rightarrow> Some (suffixes (tab1 h ! k)))"

definition bag_list :: "statetab \<Rightarrow> prefix_t \<Rightarrow> string list" where
  "bag_list tab p = (case bag_of tab p of None \<Rightarrow> [] | Some l \<Rightarrow> l)"

text \<open>The bag of a window in the table that \<^verbatim>\<open>build\<close> leaves for a stream of words.\<close>

definition bag_after_build :: "string list \<Rightarrow> prefix_t \<Rightarrow> string list option" where
  "bag_after_build ws p =
     (case build_words statetab_init ws of
        None \<Rightarrow> None
      | Some tab \<Rightarrow> bag_of tab p)"

text \<open>Sliding the window: the oldest word is dropped, the new one is appended.\<close>

definition slide :: "prefix_t \<Rightarrow> string \<Rightarrow> prefix_t" where
  "slide p w = (snd p, w)"

text \<open>
  The window when \<open>k\<close> words of the stream have been read, and the training pairs of a
  stream: every word with the window immediately before it was read, and at the end of
  the stream the sentinel \<^verbatim>\<open>NONWORD\<close> with the final window.
\<close>

definition window_before :: "string list \<Rightarrow> nat \<Rightarrow> prefix_t" where
  "window_before ws k = foldl slide (NONWORD, NONWORD) (take k ws)"

definition training_pairs :: "string list \<Rightarrow> (prefix_t \<times> string) list" where
  "training_pairs ws =
     map (\<lambda>k. (window_before ws k, (ws @ [NONWORD]) ! k)) [0..<Suc (length ws)]"

text \<open>
  The same pairs by recursion over the stream, as the successive calls
  \<^verbatim>\<open>add(prefix, suffix)\<close> of \<^verbatim>\<open>build\<close>.
\<close>

fun add_calls :: "prefix_t \<Rightarrow> string list \<Rightarrow> (prefix_t \<times> string) list" where
  "add_calls p [] = []"
| "add_calls p (w # ws) = (p, w) # add_calls (snd p, w) ws"

definition build_calls :: "string list \<Rightarrow> (prefix_t \<times> string) list" where
  "build_calls ws = add_calls (NONWORD, NONWORD) (ws @ [NONWORD])"

text \<open>The suffixes inserted under a prefix, in the order of their insertion.\<close>

definition inserted_under :: "(prefix_t \<times> string) list \<Rightarrow> prefix_t \<Rightarrow> string list" where
  "inserted_under calls p = map snd (filter (\<lambda>c. fst c = p) calls)"

text \<open>
  The table as a finite map from prefixes to suffix lists, and one insertion on that
  map: the hash table refines it.
\<close>

definition bag_add :: "(prefix_t \<rightharpoonup> string list) \<Rightarrow> prefix_t \<times> string \<Rightarrow> (prefix_t \<rightharpoonup> string list)" where
  "bag_add m c = m(fst c \<mapsto> snd c # (case m (fst c) of None \<Rightarrow> [] | Some l \<Rightarrow> l))"

text \<open>
  The invariant of the table: a state sits in the bucket of its prefix's hash, and no
  chain holds a prefix twice.
\<close>

definition statetab_inv :: "statetab \<Rightarrow> bool" where
  "statetab_inv tab =
     (\<forall>h. (\<forall>s \<in> set (tab h). hash (prefix s) = h) \<and> distinct (map prefix (tab h)))"

text \<open>
  All chain entries of the table, bucket by bucket, and all the (prefix, suffix)
  records they hold.
\<close>

definition entries :: "statetab \<Rightarrow> State list" where
  "entries tab = concat (map tab [0..<HASHSIZE])"

definition records_of :: "State list \<Rightarrow> (prefix_t \<times> string) list" where
  "records_of l = concat (map (\<lambda>s. map (Pair (prefix s)) (suffixes s)) l)"

text \<open>
  \<^verbatim>\<open>malloc\<close> never returns the address of a block that is still allocated, and the
  program frees nothing: the addresses it returns are pairwise different.
\<close>

definition never_twice :: "addr stream \<Rightarrow> bool" where
  "never_twice addrs = (\<forall>i j. i \<noteq> j \<longrightarrow> addrs !! i \<noteq> addrs !! j)"

text \<open>
  The cells from a pointer on hold a given list: the link between the memory and the
  lists of the model above.
\<close>

fun suffix_list :: "(addr \<rightharpoonup> Suffix_cell) \<Rightarrow> addr option \<Rightarrow> string list \<Rightarrow> bool" where
  "suffix_list S suf [] = (suf = None)"
| "suffix_list S suf (w # ws) =
     (case suf of
        None \<Rightarrow> False
      | Some b \<Rightarrow>
          (case S b of
             None \<Rightarrow> False
           | Some sc \<Rightarrow> suffix_word sc = w \<and> suffix_list S (next_suffix sc) ws))"

fun state_chain :: "memory \<Rightarrow> addr option \<Rightarrow> State list \<Rightarrow> bool" where
  "state_chain m sp [] = (sp = None)"
| "state_chain m sp (st # sts) =
     (case sp of
        None \<Rightarrow> False
      | Some a \<Rightarrow>
          (case State_at m a of
             None \<Rightarrow> False
           | Some c \<Rightarrow>
               cell_prefix c = prefix st \<and>
               suffix_list (Suffix_at m) (cell_suffixes c) (suffixes st) \<and>
               state_chain m (next_state c) sts))"

text \<open>
  A memory represents a table when every chain of cells holds the bucket's list, the
  table satisfies its invariant, and the addresses still to come are fresh.
\<close>

definition represents :: "memory \<Rightarrow> statetab \<Rightarrow> bool" where
  "represents m tab =
     ((\<forall>h. state_chain m (statetab_p m h) (tab h)) \<and>
      statetab_inv tab \<and>
      never_twice (malloc_addrs m) \<and>
      (\<forall>i. malloc_addrs m !! i \<notin> dom (State_at m) \<and> malloc_addrs m !! i \<notin> dom (Suffix_at m)))"

section \<open>The hash table refines a map from prefixes to suffix lists\<close>

lemma find_state_None: "find_state p l = None \<longleftrightarrow> p \<notin> prefix ` set l"
  by (induction l) (auto simp: prod_eq_iff)

lemma find_state_Some: "find_state p l = Some i \<Longrightarrow> i < length l \<and> prefix (l ! i) = p"
  by (induction l arbitrary: i) (auto simp: prod_eq_iff split: if_splits)

lemma find_state_prefixes:
  "map prefix l = map prefix l' \<Longrightarrow> find_state q l = find_state q l'"
proof (induction l arbitrary: l')
  case Nil
  then show ?case by simp
next
  case (Cons a l)
  from Cons.prems obtain b m where l': "l' = b # m"
    by (cases l') auto
  with Cons.prems have "prefix a = prefix b" "map prefix l = map prefix m"
    by simp_all
  with Cons.IH [of m] l' show ?case
    by simp
qed

lemma find_state_update:
  "i < length l \<Longrightarrow> find_state q (l[i := (l ! i)\<lparr>suffixes := x\<rparr>]) = find_state q l"
  by (rule find_state_prefixes) (simp add: map_update list_update_same_conv)

lemma lookup_no_create:
  "lookup tab p False = (tab, map_option (Pair (hash p)) (find_state p (tab (hash p))))"
  by (simp add: lookup_def Let_def split: option.splits)

lemma bag_of_find:
  "bag_of tab p = map_option (\<lambda>k. suffixes (tab (hash p) ! k)) (find_state p (tab (hash p)))"
  by (simp add: bag_of_def lookup_no_create split: option.splits)

lemma add_found:
  assumes f: "find_state p (tab (hash p)) = Some i"
  shows "add tab p w =
    Some (tab(hash p := (tab (hash p))[i := (tab (hash p) ! i)\<lparr>suffixes := w # suffixes (tab (hash p) ! i)\<rparr>]),
          (snd p, w))"
  using f find_state_Some [OF f]
  by (simp add: add_def lookup_def Let_def add_suffix_def strdup_safe_def)

lemma add_created:
  assumes f: "find_state p (tab (hash p)) = None"
  shows "add tab p w =
    Some (tab(hash p := \<lparr>prefix = p, suffixes = [w]\<rparr> # tab (hash p)), (snd p, w))"
  using f
  by (simp add: add_def lookup_def Let_def add_suffix_def strdup_safe_def)

lemma add_bag:
  "\<exists>tab'. add tab p w = Some (tab', (snd p, w)) \<and>
     (\<forall>q. bag_of tab' q = (if q = p then Some (w # bag_list tab p) else bag_of tab q))"
proof (cases "find_state p (tab (hash p))")
  case None
  let ?tab' = "tab(hash p := \<lparr>prefix = p, suffixes = [w]\<rparr> # tab (hash p))"
  have b: "bag_of ?tab' q = (if q = p then Some (w # bag_list tab p) else bag_of tab q)" for q
  proof (cases "q = p")
    case True
    with None show ?thesis by (simp add: bag_of_find bag_list_def)
  next
    case False
    then show ?thesis
      by (cases "hash q = hash p") (auto simp: bag_of_find prod_eq_iff option.map_comp comp_def)
  qed
  have eq: "add tab p w = Some (?tab', (snd p, w))"
    using None by (rule add_created)
  show ?thesis
  proof (intro exI conjI allI)
    show "add tab p w = Some (?tab', (snd p, w))"
      by (rule eq)
    show "bag_of ?tab' q = (if q = p then Some (w # bag_list tab p) else bag_of tab q)" for q
      by (rule b)
  qed
next
  case (Some i)
  let ?l = "tab (hash p)"
  let ?tab' = "tab(hash p := ?l[i := (?l ! i)\<lparr>suffixes := w # suffixes (?l ! i)\<rparr>])"
  from find_state_Some [OF Some] have i: "i < length ?l" and pi: "prefix (?l ! i) = p" by auto
  have b: "bag_of ?tab' q = (if q = p then Some (w # bag_list tab p) else bag_of tab q)" for q
  proof (cases "hash q = hash p")
    case False
    then show ?thesis by (auto simp: bag_of_find)
  next
    case True
    show ?thesis
    proof (cases "find_state q ?l")
      case None
      with True Some show ?thesis
        by (auto simp: bag_of_find find_state_update [OF i])
    next
      case (Some j)
      from find_state_Some [OF Some] have j: "j < length ?l" and pj: "prefix (?l ! j) = q" by auto
      show ?thesis
      proof (cases "q = p")
        case True
        with Some \<open>find_state p ?l = Some i\<close> have "j = i" by simp
        with True Some i show ?thesis
          by (simp add: bag_of_find bag_list_def find_state_update [OF i])
      next
        case False
        with pi pj have "j \<noteq> i" by auto
        with False True Some i j show ?thesis
          by (simp add: bag_of_find find_state_update [OF i])
      qed
    qed
  qed
  have eq: "add tab p w = Some (?tab', (snd p, w))"
    using Some by (rule add_found)
  show ?thesis
  proof (intro exI conjI allI)
    show "add tab p w = Some (?tab', (snd p, w))"
      by (rule eq)
    show "bag_of ?tab' q = (if q = p then Some (w # bag_list tab p) else bag_of tab q)" for q
      by (rule b)
  qed
qed

lemma add_refines:
  "\<exists>tab'. add tab p w = Some (tab', (snd p, w)) \<and> bag_of tab' = bag_add (bag_of tab) (p, w)"
proof -
  from add_bag [of tab p w] obtain tab' where
    eq: "add tab p w = Some (tab', (snd p, w))" and
    b: "\<And>q. bag_of tab' q = (if q = p then Some (w # bag_list tab p) else bag_of tab q)"
    by blast
  have "bag_of tab' = bag_add (bag_of tab) (p, w)"
    by (rule ext) (simp add: b bag_add_def bag_list_def)
  with eq show ?thesis by blast
qed

lemma add_inv:
  assumes inv: "statetab_inv tab" and eq: "add tab p w = Some (tab', p')"
  shows "statetab_inv tab'"
proof (cases "find_state p (tab (hash p))")
  case None
  have "add tab p w = Some (tab(hash p := \<lparr>prefix = p, suffixes = [w]\<rparr> # tab (hash p)), (snd p, w))"
    using None by (rule add_created)
  with eq have tab': "tab' = tab(hash p := \<lparr>prefix = p, suffixes = [w]\<rparr> # tab (hash p))"
    by simp
  from None have "p \<notin> prefix ` set (tab (hash p))"
    by (simp add: find_state_None)
  with inv show ?thesis
    unfolding tab' statetab_inv_def by auto
next
  case (Some i)
  let ?l = "tab (hash p)"
  have "add tab p w = Some (tab(hash p := ?l[i := (?l ! i)\<lparr>suffixes := w # suffixes (?l ! i)\<rparr>]), (snd p, w))"
    using Some by (rule add_found)
  with eq have tab': "tab' = tab(hash p := ?l[i := (?l ! i)\<lparr>suffixes := w # suffixes (?l ! i)\<rparr>])"
    by simp
  from find_state_Some [OF Some] have i: "i < length ?l" and pi: "prefix (?l ! i) = p"
    by auto
  have m: "map prefix (?l[i := (?l ! i)\<lparr>suffixes := w # suffixes (?l ! i)\<rparr>]) = map prefix ?l"
    using i by (simp add: map_update list_update_same_conv)
  have "hash (prefix s) = hash p"
    if "s \<in> set (?l[i := (?l ! i)\<lparr>suffixes := w # suffixes (?l ! i)\<rparr>])" for s
  proof -
    from that have "prefix s \<in> set (map prefix (?l[i := (?l ! i)\<lparr>suffixes := w # suffixes (?l ! i)\<rparr>]))"
      by (simp del: map_update)
    then have "prefix s \<in> prefix ` set ?l"
      unfolding m by simp
    with inv show ?thesis
      unfolding statetab_inv_def by auto
  qed
  with inv m show ?thesis
    unfolding tab' statetab_inv_def by (simp del: map_update)
qed

lemma add_words_refines:
  "\<exists>tab'. add_words tab p ws = Some (tab', foldl slide p ws) \<and>
     bag_of tab' = foldl bag_add (bag_of tab) (add_calls p ws) \<and>
     (statetab_inv tab \<longrightarrow> statetab_inv tab')"
proof (induction ws arbitrary: tab p)
  case Nil
  show ?case by simp
next
  case (Cons w ws)
  from add_refines [of tab p w] obtain tab1 where
    eq: "add tab p w = Some (tab1, (snd p, w))" and b: "bag_of tab1 = bag_add (bag_of tab) (p, w)"
    by blast
  from Cons.IH [of tab1 "(snd p, w)"] obtain tab2 where
    eq2: "add_words tab1 (snd p, w) ws = Some (tab2, foldl slide (snd p, w) ws)" and
    b2: "bag_of tab2 = foldl bag_add (bag_of tab1) (add_calls (snd p, w) ws)" and
    i2: "statetab_inv tab1 \<longrightarrow> statetab_inv tab2"
    by blast
  have "add_words tab p (w # ws) = Some (tab2, foldl slide p (w # ws))"
    using eq eq2 by (simp add: slide_def)
  moreover have "bag_of tab2 = foldl bag_add (bag_of tab) (add_calls p (w # ws))"
    using b b2 by simp
  moreover have "statetab_inv tab \<longrightarrow> statetab_inv tab2"
    using i2 add_inv [OF _ eq] by blast
  ultimately show ?case by blast
qed

lemma foldl_bag_add:
  "foldl bag_add m cs q =
     (if inserted_under cs q = [] then m q
      else Some (rev (inserted_under cs q) @ (case m q of None \<Rightarrow> [] | Some l \<Rightarrow> l)))"
  by (induction cs arbitrary: m) (auto simp: bag_add_def inserted_under_def)

lemma add_calls_append:
  "add_calls p (ws @ [w]) = add_calls p ws @ [(foldl slide p ws, w)]"
  by (induction ws arbitrary: p) (simp_all add: slide_def)

lemma statetab_init_inv: "statetab_inv statetab_init"
  by (simp add: statetab_inv_def statetab_init_def)

lemma bag_of_init: "bag_of statetab_init q = None"
  by (simp add: bag_of_find statetab_init_def)

lemma build_words_spec:
  "\<exists>tab. build_words statetab_init ws = Some tab \<and> statetab_inv tab \<and>
     (\<forall>q. bag_of tab q =
        (if inserted_under (build_calls ws) q = [] then None
         else Some (rev (inserted_under (build_calls ws) q))))"
proof -
  let ?p0 = "(NONWORD, NONWORD)"
  from add_words_refines [of statetab_init ?p0 ws] statetab_init_inv obtain tab1 where
    eq1: "add_words statetab_init ?p0 ws = Some (tab1, foldl slide ?p0 ws)" and
    b1: "bag_of tab1 = foldl bag_add (bag_of statetab_init) (add_calls ?p0 ws)" and
    i1: "statetab_inv tab1"
    by blast
  from add_refines [of tab1 "foldl slide ?p0 ws" NONWORD] obtain tab2 where
    eq2: "add tab1 (foldl slide ?p0 ws) NONWORD = Some (tab2, (snd (foldl slide ?p0 ws), NONWORD))" and
    b2: "bag_of tab2 = bag_add (bag_of tab1) (foldl slide ?p0 ws, NONWORD)"
    by blast
  have i2: "statetab_inv tab2"
    using i1 eq2 by (rule add_inv)
  have "bag_of tab2 = foldl bag_add (bag_of statetab_init) (build_calls ws)"
    by (simp add: b2 b1 build_calls_def add_calls_append)
  then have "bag_of tab2 q =
        (if inserted_under (build_calls ws) q = [] then None
         else Some (rev (inserted_under (build_calls ws) q)))" for q
    by (simp add: foldl_bag_add bag_of_init)
  moreover have "build_words statetab_init ws = Some tab2"
    by (simp add: build_words_def eq1 eq2)
  ultimately show ?thesis
    using i2 by blast
qed

lemma nth_suffix_conv: "nth_suffix l r = (if r < length l then Some (l ! r) else None)"
  by (induction l r rule: nth_suffix.induct) simp_all

lemma gen_loop_bag:
  "gen_loop tab rnd i nwords p =
     (if i < nwords then
        (case bag_of tab p of
           None \<Rightarrow> \<lparr>emitted = [], stopped = StoppedByMissingEntry, iterations = 1\<rparr>
         | Some sufs \<Rightarrow>
             if sufs = [] then \<lparr>emitted = [], stopped = StoppedByEmptyBag, iterations = 1\<rparr>
             else
               (case nth_suffix sufs (shd rnd mod length sufs) of
                  None \<Rightarrow> \<lparr>emitted = [], stopped = SegFault, iterations = 1\<rparr>
                | Some w \<Rightarrow>
                    if w = NONWORD
                    then \<lparr>emitted = [], stopped = StoppedBySentinel, iterations = 1\<rparr>
                    else
                      (let res = gen_loop tab (stl rnd) (i + 1) nwords (snd p, w) in
                       res\<lparr>emitted := w # emitted res, iterations := Suc (iterations res)\<rparr>)))
      else \<lparr>emitted = [], stopped = StoppedByLengthLimit, iterations = 0\<rparr>)"
  by (subst gen_loop.simps)
    (simp add: bag_of_find lookup_no_create Let_def split: option.splits)

lemma gen_loop_no_sentinel: "NONWORD \<notin> set (emitted (gen_loop tab rnd i nwords p))"
proof -
  have "n = nat (nwords - i) \<Longrightarrow> NONWORD \<notin> set (emitted (gen_loop tab rnd i nwords p))" for n
  proof (induction n arbitrary: rnd i p)
    case 0
    then have "\<not> i < nwords" by simp
    then show ?case
      by (simp add: gen_loop_bag [of tab rnd i nwords p])
  next
    case (Suc n)
    from Suc.prems have "n = nat (nwords - (i + 1))"
      by simp
    then have ih: "NONWORD \<notin> set (emitted (gen_loop tab (stl rnd) (i + 1) nwords q))" for q
      by (rule Suc.IH)
    show ?case
      by (auto simp: gen_loop_bag [of tab rnd i nwords p] Let_def ih split: option.splits)
  qed
  then show ?thesis by simp
qed

lemma gen_loop_bounds:
  "iterations (gen_loop tab rnd i nwords p) \<le> nat (nwords - i) \<and>
   length (emitted (gen_loop tab rnd i nwords p)) \<le> nat (nwords - i)"
proof -
  have "n = nat (nwords - i) \<Longrightarrow>
    iterations (gen_loop tab rnd i nwords p) \<le> n \<and> length (emitted (gen_loop tab rnd i nwords p)) \<le> n" for n
  proof (induction n arbitrary: rnd i p)
    case 0
    then have "\<not> i < nwords" by simp
    then show ?case
      by (simp add: gen_loop_bag [of tab rnd i nwords p])
  next
    case (Suc n)
    from Suc.prems have "n = nat (nwords - (i + 1))"
      by simp
    then have ih: "iterations (gen_loop tab (stl rnd) (i + 1) nwords q) \<le> n \<and>
        length (emitted (gen_loop tab (stl rnd) (i + 1) nwords q)) \<le> n" for q
      by (rule Suc.IH)
    show ?case
      by (auto simp: gen_loop_bag [of tab rnd i nwords p] Let_def ih split: option.splits)
  qed
  then show ?thesis by simp
qed

lemma gen_loop_stake:
  assumes "stake (nat (nwords - i)) rnd1 = stake (nat (nwords - i)) rnd2"
  shows "gen_loop tab rnd1 i nwords p = gen_loop tab rnd2 i nwords p"
proof -
  have "n = nat (nwords - i) \<Longrightarrow> stake n rnd1 = stake n rnd2 \<Longrightarrow>
     gen_loop tab rnd1 i nwords p = gen_loop tab rnd2 i nwords p" for n
  proof (induction n arbitrary: rnd1 rnd2 i p)
    case 0
    then have "\<not> i < nwords" by simp
    then show ?case
      by (simp add: gen_loop_bag [of tab rnd1 i nwords p] gen_loop_bag [of tab rnd2 i nwords p])
  next
    case (Suc n)
    from Suc.prems(1) have e: "nat (nwords - i) = Suc n" and n: "n = nat (nwords - (i + 1))"
      by simp_all
    from Suc.prems(2) have "stake (Suc n) rnd1 = stake (Suc n) rnd2"
      unfolding e .
    then have hd: "shd rnd1 = shd rnd2" and tl: "stake n (stl rnd1) = stake n (stl rnd2)"
      by simp_all
    have rec: "gen_loop tab (stl rnd1) (i + 1) nwords q = gen_loop tab (stl rnd2) (i + 1) nwords q" for q
      using n tl by (rule Suc.IH)
    show ?case
      apply (subst gen_loop_bag [of tab rnd1 i nwords p])
      apply (subst gen_loop_bag [of tab rnd2 i nwords p])
      apply (simp only: hd rec)
      done
  qed
  from this [OF refl assms] show ?thesis .
qed

section \<open>Generation\<close>

lemma build_then_generate_Some:
  "\<exists>tab. build_words statetab_init ws = Some tab \<and>
     build_then_generate ws rnd nwords = Some (generate tab rnd nwords)"
  using build_words_spec [of ws] by (auto simp: build_then_generate_def)

text \<open>
  Claim C3. The sentinel is never emitted. For every stream of training words, every
  sequence of random draws and every \<open>nwords\<close>, building and then generating returns, and
  \<^verbatim>\<open>NONWORD\<close> is not among the words emitted; the same holds of \<^verbatim>\<open>generate\<close> on any table
  at all. Whenever the suffix sampled for the current window is \<^verbatim>\<open>NONWORD\<close>, the loop
  stops there by its sentinel exit and emits nothing in that iteration.
\<close>

theorem sentinel_never_emitted:
  "(\<exists>res. build_then_generate ws rnd nwords = Some res \<and> NONWORD \<notin> set (emitted res)) \<and>
   NONWORD \<notin> set (emitted (generate tab rnd nwords)) \<and>
   (i < nwords \<and> bag_of tab p = Some sufs \<and> sufs \<noteq> [] \<and>
      nth_suffix sufs (shd rnd mod length sufs) = Some NONWORD \<longrightarrow>
    gen_loop tab rnd i nwords p = \<lparr>emitted = [], stopped = StoppedBySentinel, iterations = 1\<rparr>)"
proof (intro conjI impI)
  from build_then_generate_Some [of ws rnd nwords] obtain tab' where
    "build_then_generate ws rnd nwords = Some (generate tab' rnd nwords)"
    by blast
  then show "\<exists>res. build_then_generate ws rnd nwords = Some res \<and> NONWORD \<notin> set (emitted res)"
    by (simp add: generate_def gen_loop_no_sentinel)
next
  show "NONWORD \<notin> set (emitted (generate tab rnd nwords))"
    by (simp add: generate_def gen_loop_no_sentinel)
next
  assume "i < nwords \<and> bag_of tab p = Some sufs \<and> sufs \<noteq> [] \<and>
      nth_suffix sufs (shd rnd mod length sufs) = Some NONWORD"
  then show "gen_loop tab rnd i nwords p = \<lparr>emitted = [], stopped = StoppedBySentinel, iterations = 1\<rparr>"
    by (simp add: gen_loop_bag [of tab rnd i nwords p])
qed

theorem sentinel_never_emitted_witness:
  "gen_loop (statetab_init(hash (NONWORD, NONWORD) := [\<lparr>prefix = (NONWORD, NONWORD), suffixes = [NONWORD]\<rparr>]))
     (sconst 0) 0 1 (NONWORD, NONWORD) =
   \<lparr>emitted = [], stopped = StoppedBySentinel, iterations = 1\<rparr>"
  using sentinel_never_emitted [of "[]" "sconst 0" 1
    "statetab_init(hash (NONWORD, NONWORD) := [\<lparr>prefix = (NONWORD, NONWORD), suffixes = [NONWORD]\<rparr>])"
    0 "(NONWORD, NONWORD)" "[NONWORD]"]
  by (simp add: bag_of_find)

text \<open>
  Claim C4. Generation always terminates within its bound. \<^verbatim>\<open>generate\<close> is a total
  function; on every table, cyclic chains included, every sequence of draws and every
  \<open>nwords\<close>, the loop body is entered at most \<open>nwords\<close> times and at most \<open>nwords\<close> words are
  emitted (none when \<open>nwords\<close> is zero or negative).
\<close>

theorem generate_bounded:
  "iterations (generate tab rnd nwords) \<le> nat nwords \<and>
   length (emitted (generate tab rnd nwords)) \<le> nat nwords"
  using gen_loop_bounds [of tab rnd 0 nwords "(NONWORD, NONWORD)"]
  by (simp add: generate_def)

section \<open>The training pairs and the table that build leaves\<close>

lemma add_calls_index:
  "add_calls p ws = map (\<lambda>k. (foldl slide p (take k ws), ws ! k)) [0..<length ws]"
proof (induction ws arbitrary: p)
  case Nil
  show ?case by simp
next
  case (Cons w ws)
  have "[0..<Suc (length ws)] = 0 # [Suc 0..<Suc (length ws)]"
    by (rule upt_conv_Cons) simp
  then have "[0..<Suc (length ws)] = 0 # map Suc [0..<length ws]"
    by (simp only: map_Suc_upt)
  then show ?case
    by (simp add: Cons.IH [of "(snd p, w)"] slide_def comp_def del: upt_Suc)
qed

lemma training_pairs_calls: "training_pairs ws = build_calls ws"
  unfolding training_pairs_def build_calls_def add_calls_index window_before_def
  by (rule map_cong) auto

lemma bag_after_build_eq:
  "bag_after_build ws p =
     (if inserted_under (training_pairs ws) p = [] then None
      else Some (rev (inserted_under (training_pairs ws) p)))"
proof -
  from build_words_spec [of ws] obtain tab where
    "build_words statetab_init ws = Some tab" and
    "\<And>q. bag_of tab q =
        (if inserted_under (build_calls ws) q = [] then None
         else Some (rev (inserted_under (build_calls ws) q)))"
    by blast
  then show ?thesis
    by (simp add: bag_after_build_def training_pairs_calls)
qed

lemma inserted_under_simps:
  "inserted_under [] p = []"
  "inserted_under ((q, w) # cs) p = (if q = p then w # inserted_under cs p else inserted_under cs p)"
  by (simp_all add: inserted_under_def)

section \<open>Lookup without creation\<close>

text \<open>
  Claim C7. \<^verbatim>\<open>lookup(prefix, 0)\<close> is a pure read. On every table that satisfies the
  invariant of the index (each state in the bucket of its prefix's hash, as on every
  table \<^verbatim>\<open>add\<close> produces), the table it returns is the table it was given; if some entry
  of the table stores the queried prefix, it returns a pointer to an entry whose prefix
  equals the query in both positions; and if no entry stores it, it returns the null
  pointer. No entry is created in either case.
\<close>

theorem lookup_no_create_pure:
  assumes "statetab_inv tab"
  shows "fst (lookup tab p False) = tab \<and>
    ((\<exists>h s. s \<in> set (tab h) \<and> prefix s = p) \<longrightarrow>
       (\<exists>h k. snd (lookup tab p False) = Some (h, k) \<and> k < length (tab h) \<and> prefix (tab h ! k) = p)) \<and>
    ((\<forall>h s. s \<in> set (tab h) \<longrightarrow> prefix s \<noteq> p) \<longrightarrow> snd (lookup tab p False) = None)"
proof (intro conjI impI)
  show "fst (lookup tab p False) = tab"
    by (simp add: lookup_no_create)
next
  assume "\<exists>h s. s \<in> set (tab h) \<and> prefix s = p"
  then obtain h s where s: "s \<in> set (tab h)" and ps: "prefix s = p"
    by blast
  with assms have "h = hash p"
    by (auto simp: statetab_inv_def)
  with s ps have "p \<in> prefix ` set (tab (hash p))"
    by auto
  then obtain k where k: "find_state p (tab (hash p)) = Some k"
    using find_state_None [of p "tab (hash p)"] by (cases "find_state p (tab (hash p))") auto
  from find_state_Some [OF k] k
  show "\<exists>h k. snd (lookup tab p False) = Some (h, k) \<and> k < length (tab h) \<and> prefix (tab h ! k) = p"
    by (simp add: lookup_no_create)
next
  assume "\<forall>h s. s \<in> set (tab h) \<longrightarrow> prefix s \<noteq> p"
  then have "p \<notin> prefix ` set (tab (hash p))"
    by auto
  then show "snd (lookup tab p False) = None"
    by (simp add: lookup_no_create find_state_None)
qed

theorem lookup_no_create_pure_witness:
  "statetab_inv (statetab_init(hash (''a'', ''b'') := [\<lparr>prefix = (''a'', ''b''), suffixes = [''c'']\<rparr>])) \<and>
   lookup (statetab_init(hash (''a'', ''b'') := [\<lparr>prefix = (''a'', ''b''), suffixes = [''c'']\<rparr>])) (''a'', ''b'') False =
     (statetab_init(hash (''a'', ''b'') := [\<lparr>prefix = (''a'', ''b''), suffixes = [''c'']\<rparr>]), Some (hash (''a'', ''b''), 0)) \<and>
   snd (lookup statetab_init (''a'', ''b'') False) = None"
proof -
  let ?T = "statetab_init(hash (''a'', ''b'') := [\<lparr>prefix = (''a'', ''b''), suffixes = [''c'']\<rparr>])"
  have inv: "statetab_inv ?T"
    by (simp add: statetab_inv_def statetab_init_def)
  have ex: "\<exists>h s. s \<in> set (?T h) \<and> prefix s = (''a'', ''b'')"
    by (rule exI [of _ "hash (''a'', ''b'')"]) simp
  have no: "\<forall>h s. s \<in> set (statetab_init h) \<longrightarrow> prefix s \<noteq> (''a'', ''b'')"
    by (simp add: statetab_init_def)
  from lookup_no_create_pure [OF inv, of "(''a'', ''b'')"] ex
       lookup_no_create_pure [OF statetab_init_inv, of "(''a'', ''b'')"] no inv
  show ?thesis
    by (simp add: lookup_no_create)
qed

section \<open>Empty input and the golden scenario\<close>

lemma build_calls_Nil: "build_calls [] = [((NONWORD, NONWORD), NONWORD)]"
  by (simp add: build_calls_def)

lemma golden_calls:
  "build_calls [''the'', ''quick'', ''fox'', ''the'', ''lazy'', ''fox''] =
    [((NONWORD, NONWORD), ''the''), ((NONWORD, ''the''), ''quick''), ((''the'', ''quick''), ''fox''),
     ((''quick'', ''fox''), ''the''), ((''fox'', ''the''), ''lazy''), ((''the'', ''lazy''), ''fox''),
     ((''lazy'', ''fox''), NONWORD)]"
  by (simp add: build_calls_def)

text \<open>
  Claim C6. Empty input. Building from a stream of no words leaves a table whose only
  entry maps the window (sentinel, sentinel) to the bag holding the sentinel once.
  Building and then generating returns for every \<open>nwords\<close> and every sequence of draws,
  with nothing emitted: for a positive \<open>nwords\<close> the first iteration samples the
  sentinel and stops, otherwise the loop is not entered. An empty file has no words, and
  every file in which \<^verbatim>\<open>fscanf\<close> finds no word builds this same table.
\<close>

theorem empty_input:
  "build_words statetab_init [] =
     Some (statetab_init(hash (NONWORD, NONWORD) := [\<lparr>prefix = (NONWORD, NONWORD), suffixes = [NONWORD]\<rparr>])) \<and>
   build_then_generate [] rnd nwords =
     Some \<lparr>emitted = [],
           stopped = (if 0 < nwords then StoppedBySentinel else StoppedByLengthLimit),
           iterations = (if 0 < nwords then 1 else 0)\<rparr> \<and>
   read_words [] = [] \<and>
   (read_words f = [] \<longrightarrow> build statetab_init f = build_words statetab_init [])"
proof -
  let ?p0 = "(NONWORD, NONWORD)"
  let ?T = "statetab_init(hash ?p0 := [\<lparr>prefix = ?p0, suffixes = [NONWORD]\<rparr>])"
  have "find_state ?p0 (statetab_init (hash ?p0)) = None"
    by (simp add: statetab_init_def)
  then have "add statetab_init ?p0 NONWORD = Some (?T, (snd ?p0, NONWORD))"
    by (simp add: add_created statetab_init_def)
  then have b: "build_words statetab_init [] = Some ?T"
    by (simp add: build_words_def)
  have bag: "bag_of ?T ?p0 = Some [NONWORD]"
    by (simp add: bag_of_find)
  have g: "generate ?T rnd nwords =
     \<lparr>emitted = [],
           stopped = (if 0 < nwords then StoppedBySentinel else StoppedByLengthLimit),
           iterations = (if 0 < nwords then 1 else 0)\<rparr>"
    by (simp add: generate_def gen_loop_bag [of ?T rnd 0 nwords ?p0] bag)
  have r: "read_words [] = []"
    by (simp add: read_words.simps [of "[]"] fscanf_s_def)
  show ?thesis
    using b g r by (simp add: build_then_generate_def build_def)
qed

theorem empty_input_witness:
  "read_words '' '' = [] \<and>
   build statetab_init '' '' =
     Some (statetab_init(hash (NONWORD, NONWORD) := [\<lparr>prefix = (NONWORD, NONWORD), suffixes = [NONWORD]\<rparr>]))"
proof -
  have r: "read_words '' '' = []"
    by (simp add: read_words.simps [of "'' ''"] fscanf_s_def isspace_def)
  with empty_input [of "sconst 0" 0 "'' ''"] show ?thesis
    by simp
qed

text \<open>
  Claim C1. The golden scenario. Building from the words the, quick, fox, the, lazy,
  fox leaves a table in which the window (the, quick) has the bag [fox], (quick, fox)
  has [the], (fox, the) has [lazy], (the, lazy) has [fox] and (lazy, fox) has the
  sentinel alone. For every sequence of random draws, generating with \<open>nwords = 10\<close> emits
  exactly the, quick, fox, the, lazy, fox and stops in the seventh iteration by
  sampling the sentinel; the bytes printed are these words, each followed by a space,
  and a newline.
\<close>

theorem golden_scenario:
  "bag_after_build [''the'', ''quick'', ''fox'', ''the'', ''lazy'', ''fox''] (''the'', ''quick'') = Some [''fox''] \<and>
   bag_after_build [''the'', ''quick'', ''fox'', ''the'', ''lazy'', ''fox''] (''quick'', ''fox'') = Some [''the''] \<and>
   bag_after_build [''the'', ''quick'', ''fox'', ''the'', ''lazy'', ''fox''] (''fox'', ''the'') = Some [''lazy''] \<and>
   bag_after_build [''the'', ''quick'', ''fox'', ''the'', ''lazy'', ''fox''] (''the'', ''lazy'') = Some [''fox''] \<and>
   bag_after_build [''the'', ''quick'', ''fox'', ''the'', ''lazy'', ''fox''] (''lazy'', ''fox'') = Some [NONWORD] \<and>
   build_then_generate [''the'', ''quick'', ''fox'', ''the'', ''lazy'', ''fox''] rnd 10 =
     Some \<lparr>emitted = [''the'', ''quick'', ''fox'', ''the'', ''lazy'', ''fox''],
           stopped = StoppedBySentinel, iterations = 7\<rparr> \<and>
   map_option printed (build_then_generate [''the'', ''quick'', ''fox'', ''the'', ''lazy'', ''fox''] rnd 10) =
     Some (''the quick fox the lazy fox '' @ [CHR 0x0A])"
proof -
  let ?ws = "[''the'', ''quick'', ''fox'', ''the'', ''lazy'', ''fox'']"
  have bags:
    "bag_after_build ?ws (NONWORD, NONWORD) = Some [''the'']"
    "bag_after_build ?ws (NONWORD, ''the'') = Some [''quick'']"
    "bag_after_build ?ws (''the'', ''quick'') = Some [''fox'']"
    "bag_after_build ?ws (''quick'', ''fox'') = Some [''the'']"
    "bag_after_build ?ws (''fox'', ''the'') = Some [''lazy'']"
    "bag_after_build ?ws (''the'', ''lazy'') = Some [''fox'']"
    "bag_after_build ?ws (''lazy'', ''fox'') = Some [NONWORD]"
    by (simp_all add: bag_after_build_eq training_pairs_calls golden_calls inserted_under_simps NONWORD_def)
  from build_words_spec [of ?ws] obtain tab where
    t: "build_words statetab_init ?ws = Some tab"
    by blast
  with bags have tb:
    "bag_of tab (NONWORD, NONWORD) = Some [''the'']"
    "bag_of tab (NONWORD, ''the'') = Some [''quick'']"
    "bag_of tab (''the'', ''quick'') = Some [''fox'']"
    "bag_of tab (''quick'', ''fox'') = Some [''the'']"
    "bag_of tab (''fox'', ''the'') = Some [''lazy'']"
    "bag_of tab (''the'', ''lazy'') = Some [''fox'']"
    "bag_of tab (''lazy'', ''fox'') = Some [NONWORD]"
    by (simp_all add: bag_after_build_def)
  have nw: "''the'' \<noteq> NONWORD" "''quick'' \<noteq> NONWORD" "''fox'' \<noteq> NONWORD" "''lazy'' \<noteq> NONWORD"
    by (simp_all add: NONWORD_def)
  have g: "generate tab rnd 10 =
     \<lparr>emitted = [''the'', ''quick'', ''fox'', ''the'', ''lazy'', ''fox''],
           stopped = StoppedBySentinel, iterations = 7\<rparr>"
    unfolding generate_def
    apply (subst gen_loop_bag, simp add: tb nw)
    apply (subst gen_loop_bag, simp add: tb nw)
    apply (subst gen_loop_bag, simp add: tb nw)
    apply (subst gen_loop_bag, simp add: tb nw)
    apply (subst gen_loop_bag, simp add: tb nw)
    apply (subst gen_loop_bag, simp add: tb nw)
    apply (subst gen_loop_bag, simp add: tb nw)
    done
  have bg: "build_then_generate ?ws rnd 10 = Some (generate tab rnd 10)"
    by (simp add: build_then_generate_def t)
  show ?thesis
    using bags(3-7) by (simp add: bg g printed_def)
qed

section \<open>The order of a suffix list\<close>

lemma aaab_inserted:
  "inserted_under (training_pairs [''a'', ''a'', ''a'', ''b'']) (''a'', ''a'') = [''a'', ''b'']"
  by (simp add: training_pairs_calls build_calls_def inserted_under_simps NONWORD_def)

text \<open>
  Claim C8, as stated, fails. \<^verbatim>\<open>add_suffix\<close> does not append: on an entry that holds the
  suffix a, inserting b gives the list b, a and not a, b. After \<^verbatim>\<open>build\<close> on the words
  a, a, a, b the suffixes inserted under the window (a, a) are a and then b, and the
  list the generator walks is b, a: position 0 is the last insertion, not the first.
\<close>

theorem add_suffix_appends_counterexample:
  "add_suffix (statetab_init(hash (''a'', ''a'') := [\<lparr>prefix = (''a'', ''a''), suffixes = [''a'']\<rparr>]))
     (Some (hash (''a'', ''a''), 0)) ''b'' \<noteq>
   Some (statetab_init(hash (''a'', ''a'') := [\<lparr>prefix = (''a'', ''a''), suffixes = [''a''] @ [''b'']\<rparr>])) \<and>
   inserted_under (training_pairs [''a'', ''a'', ''a'', ''b'']) (''a'', ''a'') = [''a'', ''b''] \<and>
   bag_after_build [''a'', ''a'', ''a'', ''b''] (''a'', ''a'') = Some [''b'', ''a''] \<and>
   bag_after_build [''a'', ''a'', ''a'', ''b''] (''a'', ''a'') \<noteq>
     Some (inserted_under (training_pairs [''a'', ''a'', ''a'', ''b'']) (''a'', ''a''))"
proof -
  let ?T = "statetab_init(hash (''a'', ''a'') := [\<lparr>prefix = (''a'', ''a''), suffixes = [''a'']\<rparr>])"
  have "add_suffix ?T (Some (hash (''a'', ''a''), 0)) ''b'' =
    Some (statetab_init(hash (''a'', ''a'') := [\<lparr>prefix = (''a'', ''a''), suffixes = [''b'', ''a'']\<rparr>]))"
    by (simp add: add_suffix_def strdup_safe_def)
  moreover have "statetab_init(hash (''a'', ''a'') := [\<lparr>prefix = (''a'', ''a''), suffixes = [''b'', ''a'']\<rparr>]) \<noteq>
    statetab_init(hash (''a'', ''a'') := [\<lparr>prefix = (''a'', ''a''), suffixes = [''a''] @ [''b'']\<rparr>])"
  proof
    assume "statetab_init(hash (''a'', ''a'') := [\<lparr>prefix = (''a'', ''a''), suffixes = [''b'', ''a'']\<rparr>]) =
      statetab_init(hash (''a'', ''a'') := [\<lparr>prefix = (''a'', ''a''), suffixes = [''a''] @ [''b'']\<rparr>])"
    then have "(statetab_init(hash (''a'', ''a'') := [\<lparr>prefix = (''a'', ''a''), suffixes = [''b'', ''a'']\<rparr>])) (hash (''a'', ''a'')) =
      (statetab_init(hash (''a'', ''a'') := [\<lparr>prefix = (''a'', ''a''), suffixes = [''a''] @ [''b'']\<rparr>])) (hash (''a'', ''a''))"
      by (rule arg_cong)
    then show False by simp
  qed
  ultimately show ?thesis
    by (simp add: bag_after_build_eq aaab_inserted)
qed

text \<open>
  Claim C8, amended. \<^verbatim>\<open>add_suffix\<close> puts the word in front of the entry's suffix list and
  leaves the prefix alone; a word already in the list is stored again (its count grows
  by one). So after \<^verbatim>\<open>build\<close> the list of a window is the sequence of the suffixes
  inserted under it in reverse order of insertion: among \<open>n\<close> insertions, position \<open>r\<close> of
  the walk holds the insertion number \<open>n - 1 - r\<close>.
\<close>

theorem add_suffix_prepends:
  "(i < length (tab h) \<longrightarrow>
      (\<exists>tab'. add_suffix tab (Some (h, i)) w = Some tab' \<and>
         suffixes (tab' h ! i) = w # suffixes (tab h ! i) \<and>
         prefix (tab' h ! i) = prefix (tab h ! i) \<and>
         count_list (suffixes (tab' h ! i)) w = Suc (count_list (suffixes (tab h ! i)) w))) \<and>
   bag_after_build ws p =
     (if inserted_under (training_pairs ws) p = [] then None
      else Some (rev (inserted_under (training_pairs ws) p))) \<and>
   (r < length (inserted_under (training_pairs ws) p) \<longrightarrow>
      map_option (\<lambda>sufs. nth_suffix sufs r) (bag_after_build ws p) =
        Some (Some (inserted_under (training_pairs ws) p !
                      (length (inserted_under (training_pairs ws) p) - Suc r))))"
proof (intro conjI impI)
  assume i: "i < length (tab h)"
  let ?tab' = "tab(h := (tab h)[i := (tab h ! i)\<lparr>suffixes := w # suffixes (tab h ! i)\<rparr>])"
  have "add_suffix tab (Some (h, i)) w = Some ?tab'"
    using i by (simp add: add_suffix_def strdup_safe_def)
  moreover have "suffixes (?tab' h ! i) = w # suffixes (tab h ! i)" "prefix (?tab' h ! i) = prefix (tab h ! i)"
    using i by simp_all
  ultimately show "\<exists>tab'. add_suffix tab (Some (h, i)) w = Some tab' \<and>
         suffixes (tab' h ! i) = w # suffixes (tab h ! i) \<and>
         prefix (tab' h ! i) = prefix (tab h ! i) \<and>
         count_list (suffixes (tab' h ! i)) w = Suc (count_list (suffixes (tab h ! i)) w)"
    by simp
next
  show "bag_after_build ws p =
     (if inserted_under (training_pairs ws) p = [] then None
      else Some (rev (inserted_under (training_pairs ws) p)))"
    by (rule bag_after_build_eq)
next
  assume r: "r < length (inserted_under (training_pairs ws) p)"
  then have "inserted_under (training_pairs ws) p \<noteq> []"
    by auto
  with r show "map_option (\<lambda>sufs. nth_suffix sufs r) (bag_after_build ws p) =
        Some (Some (inserted_under (training_pairs ws) p !
                      (length (inserted_under (training_pairs ws) p) - Suc r)))"
    by (simp add: bag_after_build_eq nth_suffix_conv rev_nth)
qed

theorem add_suffix_prepends_witness:
  "(\<exists>tab'. add_suffix (statetab_init(hash (''a'', ''a'') := [\<lparr>prefix = (''a'', ''a''), suffixes = [''a'']\<rparr>]))
              (Some (hash (''a'', ''a''), 0)) ''b'' = Some tab' \<and>
           suffixes (tab' (hash (''a'', ''a'')) ! 0) = [''b'', ''a'']) \<and>
   bag_after_build [''a'', ''a'', ''a'', ''b''] (''a'', ''a'') = Some [''b'', ''a''] \<and>
   map_option (\<lambda>sufs. nth_suffix sufs 0) (bag_after_build [''a'', ''a'', ''a'', ''b''] (''a'', ''a'')) =
     Some (Some ''b'')"
  using add_suffix_prepends [of 0
      "statetab_init(hash (''a'', ''a'') := [\<lparr>prefix = (''a'', ''a''), suffixes = [''a'']\<rparr>])"
      "hash (''a'', ''a'')" "''b''" "[''a'', ''a'', ''a'', ''b'']" "(''a'', ''a'')" 0]
  by (auto simp: aaab_inserted)

section \<open>The first word and the weights of the suffixes\<close>

lemma add_calls_windows:
  "(q, x) \<in> set (add_calls p ws) \<Longrightarrow> q = p \<or> snd q \<in> set (butlast ws)"
proof (induction ws arbitrary: p)
  case Nil
  then show ?case by simp
next
  case (Cons w ws)
  show ?case
  proof (cases "(q, x) \<in> set (add_calls (snd p, w) ws)")
    case True
    then have ne: "ws \<noteq> []"
      by auto
    from Cons.IH [OF True] ne show ?thesis
      by auto
  next
    case False
    with Cons.prems have "(q, x) = (p, w)"
      by simp
    then show ?thesis by simp
  qed
qed

lemma first_bag:
  assumes "ws \<noteq> []" and "NONWORD \<notin> set ws"
  shows "inserted_under (training_pairs ws) (NONWORD, NONWORD) = [hd ws]"
proof -
  from assms(1) obtain w ws' where ws: "ws = w # ws'"
    by (cases ws) auto
  with assms(2) have w: "w \<noteq> NONWORD" and ws': "NONWORD \<notin> set ws'"
    by auto
  have "fst c \<noteq> (NONWORD, NONWORD)" if c: "c \<in> set (add_calls (NONWORD, w) (ws' @ [NONWORD]))" for c
  proof -
    from c have "(fst c, snd c) \<in> set (add_calls (NONWORD, w) (ws' @ [NONWORD]))"
      by simp
    from add_calls_windows [OF this] have "fst c = (NONWORD, w) \<or> snd (fst c) \<in> set ws'"
      by simp
    with w ws' have "snd (fst c) \<noteq> NONWORD"
      by auto
    then show ?thesis
      by auto
  qed
  then have "filter (\<lambda>c. fst c = (NONWORD, NONWORD)) (add_calls (NONWORD, w) (ws' @ [NONWORD])) = []"
    by (simp add: filter_empty_conv)
  then show ?thesis
    by (simp add: ws training_pairs_calls build_calls_def inserted_under_def)
qed

lemma read_words_no_NONWORD: "NONWORD \<notin> set (read_words f)"
proof (induction f rule: read_words.induct)
  case (1 f)
  show ?case
  proof (cases "fscanf_s f")
    case None
    then show ?thesis by (simp add: read_words.simps [of f])
  next
    case (Some br)
    obtain buf rest where br: "br = (buf, rest)"
      by (cases br)
    from Some br have "set buf \<subseteq> {c. \<not> isspace c}"
      by (auto simp: fscanf_s_def Let_def split: if_splits
               dest!: set_takeWhileD in_set_takeD)
    moreover have "isspace (CHR 0x0A)"
      by (simp add: isspace_def)
    ultimately have "buf \<noteq> NONWORD"
      by (auto simp: NONWORD_def)
    with 1 [OF Some br [symmetric]] Some br show ?thesis
      by (simp add: read_words.simps [of f] strdup_safe_def)
  qed
qed

lemma first_emitted:
  assumes "bag_after_build ws (NONWORD, NONWORD) = Some [w]" and "w \<noteq> NONWORD" and "0 < nwords"
  shows "\<exists>res rest. build_then_generate ws rnd nwords = Some res \<and> emitted res = w # rest"
proof -
  from build_then_generate_Some [of ws rnd nwords] obtain tab where
    t: "build_words statetab_init ws = Some tab" and
    g: "build_then_generate ws rnd nwords = Some (generate tab rnd nwords)"
    by blast
  from assms(1) t have b: "bag_of tab (NONWORD, NONWORD) = Some [w]"
    by (simp add: bag_after_build_def)
  have "emitted (generate tab rnd nwords) =
      w # emitted (gen_loop tab (stl rnd) (0 + 1) nwords (snd (NONWORD, NONWORD), w))"
    using assms(2,3)
    by (simp add: generate_def gen_loop_bag [of tab rnd 0 nwords "(NONWORD, NONWORD)"] b Let_def)
  with g show ?thesis
    by blast
qed

lemma read_words_x_y: "read_words ''x y'' = [''x'', ''y'']"
  by (simp add: read_words.simps [of "''x y''"] read_words.simps [of "'' y''"]
      read_words.simps [of "[]"] fscanf_s_def isspace_def MAX_WORD_def strdup_safe_def)

lemma count_list_inserted: "count_list (inserted_under cs p) T = count_list cs (p, T)"
  by (induction cs) (auto simp: inserted_under_def)

lemma card_positions: "card {r. r < length l \<and> l ! r = T} = count_list l T"
proof -
  have "count_list l T = length (filter (\<lambda>x. x = T) l)"
    by (induction l) auto
  then show ?thesis
    by (simp add: length_filter_conv_card)
qed

lemma aaab_pairs:
  "training_pairs [''a'', ''a'', ''a'', ''b''] =
    [((NONWORD, NONWORD), ''a''), ((NONWORD, ''a''), ''a''), ((''a'', ''a''), ''a''),
     ((''a'', ''a''), ''b''), ((''a'', ''b''), NONWORD)]"
  by (simp add: training_pairs_calls build_calls_def)

text \<open>
  Claim C10. The first word generated is the first word of the stream. For every
  stream of words that is not empty and holds no word equal to the sentinel (as every
  stream that \<^verbatim>\<open>fscanf\<close> reads from a file: its words hold no white space, and the
  sentinel is a newline), the bag of the window (sentinel, sentinel) after \<^verbatim>\<open>build\<close> is
  the first word, once. So whenever \<open>nwords\<close> is at least 1, generation returns and the
  first word it emits is the first word of the stream, whatever the random draws. The
  second half states the same of the words read from any file that holds a word.
\<close>

theorem first_token_deterministic:
  "(ws \<noteq> [] \<and> NONWORD \<notin> set ws \<longrightarrow>
      bag_after_build ws (NONWORD, NONWORD) = Some [hd ws] \<and>
      (0 < nwords \<longrightarrow>
         (\<exists>res rest. build_then_generate ws rnd nwords = Some res \<and> emitted res = hd ws # rest))) \<and>
   (read_words f \<noteq> [] \<longrightarrow>
      bag_after_build (read_words f) (NONWORD, NONWORD) = Some [hd (read_words f)] \<and>
      (0 < nwords \<longrightarrow>
         (\<exists>res rest. build_then_generate (read_words f) rnd nwords = Some res \<and>
            emitted res = hd (read_words f) # rest)))"
proof -
  have main: "bag_after_build us (NONWORD, NONWORD) = Some [hd us] \<and>
      (0 < nwords \<longrightarrow>
         (\<exists>res rest. build_then_generate us rnd nwords = Some res \<and> emitted res = hd us # rest))"
    if ne: "us \<noteq> []" and nw: "NONWORD \<notin> set us" for us
  proof -
    have b: "bag_after_build us (NONWORD, NONWORD) = Some [hd us]"
      by (simp add: bag_after_build_eq first_bag [OF ne nw])
    from ne nw have "hd us \<noteq> NONWORD"
      by (cases us) auto
    with b show ?thesis
      using first_emitted [of us "hd us" nwords rnd] by blast
  qed
  show ?thesis
    using main [of ws] main [of "read_words f"] read_words_no_NONWORD [of f]
    by blast
qed

theorem first_token_deterministic_witness:
  "bag_after_build [''x'', ''y''] (NONWORD, NONWORD) = Some [''x''] \<and>
   (\<exists>res rest. build_then_generate [''x'', ''y''] (sconst 5) 1 = Some res \<and> emitted res = ''x'' # rest) \<and>
   read_words ''x y'' = [''x'', ''y''] \<and>
   (\<exists>res rest. build_then_generate (read_words ''x y'') (sconst 5) 1 = Some res \<and> emitted res = ''x'' # rest)"
  using first_token_deterministic [of "[''x'', ''y'']" 1 "sconst 5" "''x y''"]
  by (simp add: read_words_x_y NONWORD_def)

text \<open>
  Claim C2. Uniform weighting by occurrence. Let the window \<open>p\<close> have the bag \<open>sufs\<close>
  after \<^verbatim>\<open>build\<close>, of size \<open>n\<close>. For every word \<open>T\<close>, the number of indices \<open>r\<close> below \<open>n\<close>
  at which the generator's walk (\<open>r\<close> steps from the head of the list) selects \<open>T\<close> is the
  number \<open>k\<close> of times \<^verbatim>\<open>build\<close> inserted \<open>T\<close> under \<open>p\<close>; \<open>n\<close> is the number of all
  insertions under \<open>p\<close>, it is positive, and \<open>k \<le> n\<close>. Hence a uniform \<open>r\<close> selects \<open>T\<close> with
  probability \<open>k / n\<close>. In a run of the loop on window \<open>p\<close>, a word \<open>T\<close> other than the
  sentinel is the word emitted first exactly when the index \<^verbatim>\<open>rand() % n\<close> selects it.
\<close>

theorem uniform_occurrence_weighting:
  assumes "bag_after_build ws p = Some sufs"
  shows "card {r. r < length sufs \<and> nth_suffix sufs r = Some T} = count_list (training_pairs ws) (p, T) \<and>
         length sufs = length (inserted_under (training_pairs ws) p) \<and>
         0 < length sufs \<and>
         count_list (training_pairs ws) (p, T) \<le> length sufs \<and>
         (build_words statetab_init ws = Some tab \<and> i < nwords \<and> T \<noteq> NONWORD \<longrightarrow>
            (\<exists>rest. emitted (gen_loop tab rnd i nwords p) = T # rest) =
            (nth_suffix sufs (shd rnd mod length sufs) = Some T))"
proof -
  from assms have s: "sufs = rev (inserted_under (training_pairs ws) p)"
    and ne: "inserted_under (training_pairs ws) p \<noteq> []"
    by (auto simp: bag_after_build_eq split: if_splits)
  have "{r. r < length sufs \<and> nth_suffix sufs r = Some T} = {r. r < length sufs \<and> sufs ! r = T}"
    by (auto simp: nth_suffix_conv)
  then have "card {r. r < length sufs \<and> nth_suffix sufs r = Some T} = count_list sufs T"
    by (simp only: card_positions)
  also have "count_list sufs T = count_list (training_pairs ws) (p, T)"
    by (simp add: s count_list_inserted)
  finally have c: "card {r. r < length sufs \<and> nth_suffix sufs r = Some T} = count_list (training_pairs ws) (p, T)" .
  have "count_list sufs T \<le> length sufs"
    by (rule count_le_length)
  then have le: "count_list (training_pairs ws) (p, T) \<le> length sufs"
    by (simp add: s count_list_inserted)
  have sel: "(\<exists>rest. emitted (gen_loop tab rnd i nwords p) = T # rest) =
            (nth_suffix sufs (shd rnd mod length sufs) = Some T)"
    if t: "build_words statetab_init ws = Some tab" and i: "i < nwords" and T: "T \<noteq> NONWORD"
  proof -
    from assms t have b: "bag_of tab p = Some sufs"
      by (simp add: bag_after_build_def)
    from s ne have sne: "sufs \<noteq> []"
      by simp
    then have r: "shd rnd mod length sufs < length sufs"
      by simp
    show ?thesis
      using i T sne r
      by (auto simp: gen_loop_bag [of tab rnd i nwords p] b nth_suffix_conv Let_def)
  qed
  from c s ne le sel show ?thesis
    by simp
qed

theorem uniform_occurrence_weighting_witness:
  "bag_after_build [''a'', ''a'', ''a'', ''b''] (''a'', ''a'') = Some [''b'', ''a''] \<and>
   card {r. r < length [''b'', ''a''] \<and> nth_suffix [''b'', ''a''] r = Some ''b''} = 1 \<and>
   (\<exists>tab. build_words statetab_init [''a'', ''a'', ''a'', ''b''] = Some tab \<and>
      (\<exists>rest. emitted (gen_loop tab (sconst 0) 0 1 (''a'', ''a'')) = ''b'' # rest))"
proof -
  have b: "bag_after_build [''a'', ''a'', ''a'', ''b''] (''a'', ''a'') = Some [''b'', ''a'']"
    by (simp add: bag_after_build_eq aaab_inserted)
  have k: "count_list (training_pairs [''a'', ''a'', ''a'', ''b'']) ((''a'', ''a''), ''b'') = 1"
    by (simp add: aaab_pairs NONWORD_def)
  from build_words_spec [of "[''a'', ''a'', ''a'', ''b'']"] obtain tab where
    t: "build_words statetab_init [''a'', ''a'', ''a'', ''b''] = Some tab"
    by blast
  have T: "''b'' \<noteq> NONWORD"
    by (simp add: NONWORD_def)
  from uniform_occurrence_weighting [OF b, of "''b''" tab 0 1 "sconst 0"] k b t T
  have "card {r. r < length [''b'', ''a''] \<and> nth_suffix [''b'', ''a''] r = Some ''b''} = 1"
    and "\<exists>rest. emitted (gen_loop tab (sconst 0) 0 1 (''a'', ''a'')) = ''b'' # rest"
    by (simp_all add: aaab_inserted)
  with b t show ?thesis
    by blast
qed

section \<open>The invariant of the prefix index\<close>

lemma hash_less: "hash p < HASHSIZE"
  by (simp add: hash_def HASHSIZE_def)

lemma set_entries: "set (entries tab) = (\<Union>h\<in>{0..<HASHSIZE}. set (tab h))"
  by (simp add: entries_def)

lemma prefixes_entries:
  assumes "statetab_inv tab"
  shows "p \<in> prefix ` set (entries tab) \<longleftrightarrow> bag_of tab p \<noteq> None"
proof
  assume "p \<in> prefix ` set (entries tab)"
  then obtain h s where s: "s \<in> set (tab h)" and ps: "prefix s = p"
    by (auto simp: set_entries)
  with assms have "h = hash p"
    by (auto simp: statetab_inv_def)
  with s ps have "p \<in> prefix ` set (tab (hash p))"
    by auto
  then have "find_state p (tab (hash p)) \<noteq> None"
    by (simp add: find_state_None)
  then show "bag_of tab p \<noteq> None"
    by (simp add: bag_of_find)
next
  assume "bag_of tab p \<noteq> None"
  then have "find_state p (tab (hash p)) \<noteq> None"
    by (simp add: bag_of_find)
  then have "p \<in> prefix ` set (tab (hash p))"
    by (simp add: find_state_None)
  then obtain s where s: "s \<in> set (tab (hash p))" and ps: "prefix s = p"
    by auto
  from hash_less [of p] s have "s \<in> (\<Union>h\<in>{0..<HASHSIZE}. set (tab h))"
    by (intro UN_I [of "hash p"]) simp_all
  then have "prefix s \<in> prefix ` set (entries tab)"
    unfolding set_entries by (rule imageI)
  with ps show "p \<in> prefix ` set (entries tab)"
    by simp
qed

lemma distinct_concat_upt:
  assumes "\<And>h. h < N \<Longrightarrow> distinct (g h)"
    and "\<And>h h'. h < N \<Longrightarrow> h' < N \<Longrightarrow> h \<noteq> h' \<Longrightarrow> set (g h) \<inter> set (g h') = {}"
  shows "distinct (concat (map g [0..<N]))"
  using assms
proof (induction N)
  case 0
  show ?case by simp
next
  case (Suc N)
  have "distinct (concat (map g [0..<N]))"
    by (rule Suc.IH) (simp_all add: Suc.prems)
  moreover have "distinct (g N)"
    by (simp add: Suc.prems(1))
  moreover have d: "x \<notin> set (g N)" if "h < N" "x \<in> set (g h)" for h x
    using Suc.prems(2) [of h N] that by auto
  have "set (concat (map g [0..<N])) \<inter> set (g N) = {}"
    by (auto dest: d)
  ultimately show ?case
    by simp
qed

lemma distinct_entries:
  assumes "statetab_inv tab"
  shows "distinct (map prefix (entries tab))"
proof -
  have e: "map prefix (entries tab) = concat (map (\<lambda>h. map prefix (tab h)) [0..<HASHSIZE])"
    by (simp add: entries_def map_concat comp_def)
  show ?thesis
    unfolding e
  proof (rule distinct_concat_upt)
    fix h
    from assms show "distinct (map prefix (tab h))"
      by (simp add: statetab_inv_def)
  next
    fix h h' :: nat
    assume ne: "h \<noteq> h'"
    have False if a: "p \<in> set (map prefix (tab h))" and b: "p \<in> set (map prefix (tab h'))" for p
    proof -
      from assms a have "hash p = h"
        by (auto simp: statetab_inv_def)
      moreover from assms b have "hash p = h'"
        by (auto simp: statetab_inv_def)
      ultimately show False
        using ne by simp
    qed
    then show "set (map prefix (tab h)) \<inter> set (map prefix (tab h')) = {}"
      by blast
  qed
qed

lemma records_of_Cons:
  "records_of (s # l) = map (Pair (prefix s)) (suffixes s) @ records_of l"
  by (simp add: records_of_def)

lemma records_update:
  "i < length l \<Longrightarrow>
     mset (records_of (l[i := (l ! i)\<lparr>suffixes := w # suffixes (l ! i)\<rparr>])) =
     add_mset (prefix (l ! i), w) (mset (records_of l))"
proof (induction l arbitrary: i)
  case Nil
  then show ?case by simp
next
  case (Cons a l)
  show ?case
  proof (cases i)
    case 0
    then show ?thesis by (simp add: records_of_Cons)
  next
    case (Suc j)
    with Cons.prems have "j < length l" by simp
    from Cons.IH [OF this] Suc show ?thesis
      by (simp add: records_of_Cons)
  qed
qed

lemma mset_records_entries:
  "mset (records_of (entries tab)) = (\<Sum>h = 0..<HASHSIZE. mset (records_of (tab h)))"
proof -
  have "records_of (concat xs) = concat (map records_of xs)" for xs :: "State list list"
    by (induction xs) (simp_all add: records_of_def)
  then have "mset (records_of (entries tab)) = (\<Sum>h\<leftarrow>[0..<HASHSIZE]. mset (records_of (tab h)))"
    by (simp add: entries_def mset_concat comp_def)
  then show ?thesis
    by (simp add: interv_sum_list_conv_sum_set_nat)
qed

lemma records_bucket_update:
  assumes "h0 < HASHSIZE" and "mset (records_of l') = add_mset x (mset (records_of (tab h0)))"
  shows "mset (records_of (entries (tab(h0 := l')))) = add_mset x (mset (records_of (entries tab)))"
proof -
  have fin: "finite {0..<HASHSIZE}" and mem: "h0 \<in> {0..<HASHSIZE}"
    using assms(1) by simp_all
  have rest: "(\<Sum>h \<in> {0..<HASHSIZE} - {h0}. mset (records_of ((tab(h0 := l')) h))) =
      (\<Sum>h \<in> {0..<HASHSIZE} - {h0}. mset (records_of (tab h)))"
    by (rule sum.cong) simp_all
  have "mset (records_of (entries (tab(h0 := l')))) =
      mset (records_of l') + (\<Sum>h \<in> {0..<HASHSIZE} - {h0}. mset (records_of ((tab(h0 := l')) h)))"
    unfolding mset_records_entries using sum.remove [OF fin mem, of "\<lambda>h. mset (records_of ((tab(h0 := l')) h))"]
    by simp
  moreover have "mset (records_of (entries tab)) =
      mset (records_of (tab h0)) + (\<Sum>h \<in> {0..<HASHSIZE} - {h0}. mset (records_of (tab h)))"
    unfolding mset_records_entries using sum.remove [OF fin mem, of "\<lambda>h. mset (records_of (tab h))"]
    by simp
  ultimately show ?thesis
    using assms(2) rest by simp
qed

lemma add_records:
  assumes "add tab p w = Some (tab', p')"
  shows "mset (records_of (entries tab')) = add_mset (p, w) (mset (records_of (entries tab)))"
proof (cases "find_state p (tab (hash p))")
  case None
  have "add tab p w = Some (tab(hash p := \<lparr>prefix = p, suffixes = [w]\<rparr> # tab (hash p)), (snd p, w))"
    using None by (rule add_created)
  with assms have tab': "tab' = tab(hash p := \<lparr>prefix = p, suffixes = [w]\<rparr> # tab (hash p))"
    by simp
  show ?thesis
    unfolding tab' by (rule records_bucket_update [OF hash_less]) (simp add: records_of_Cons)
next
  case (Some i)
  let ?l = "tab (hash p)"
  have "add tab p w = Some (tab(hash p := ?l[i := (?l ! i)\<lparr>suffixes := w # suffixes (?l ! i)\<rparr>]), (snd p, w))"
    using Some by (rule add_found)
  with assms have tab': "tab' = tab(hash p := ?l[i := (?l ! i)\<lparr>suffixes := w # suffixes (?l ! i)\<rparr>])"
    by simp
  from find_state_Some [OF Some] have i: "i < length ?l" and pi: "prefix (?l ! i) = p"
    by auto
  show ?thesis
    unfolding tab' using records_update [OF i, of w] pi
    by (intro records_bucket_update [OF hash_less]) simp
qed

lemma add_words_records:
  "add_words tab p ws = Some (tab', p') \<Longrightarrow>
     mset (records_of (entries tab')) = mset (records_of (entries tab)) + mset (add_calls p ws)"
proof (induction ws arbitrary: tab p)
  case Nil
  then show ?case by simp
next
  case (Cons w ws)
  from add_refines [of tab p w] obtain tab1 where
    eq: "add tab p w = Some (tab1, (snd p, w))"
    by blast
  with Cons.prems have "add_words tab1 (snd p, w) ws = Some (tab', p')"
    by simp
  from Cons.IH [OF this] add_records [OF eq] show ?case
    by simp
qed

lemma entries_init: "entries statetab_init = []"
  by (simp add: entries_def statetab_init_def)

lemma build_words_records:
  assumes "build_words statetab_init ws = Some tab"
  shows "mset (records_of (entries tab)) = mset (training_pairs ws)"
proof -
  let ?p0 = "(NONWORD, NONWORD)"
  from add_words_refines [of statetab_init ?p0 ws] obtain tab1 where
    eq1: "add_words statetab_init ?p0 ws = Some (tab1, foldl slide ?p0 ws)"
    by blast
  with assms obtain p' where eq2: "add tab1 (foldl slide ?p0 ws) NONWORD = Some (tab, p')"
    by (auto simp: build_words_def)
  from add_words_records [OF eq1] add_records [OF eq2] show ?thesis
    by (simp add: training_pairs_calls build_calls_def add_calls_append entries_init records_of_def)
qed

lemma inserted_under_Nil_iff: "inserted_under cs p = [] \<longleftrightarrow> p \<notin> fst ` set cs"
  by (auto simp: inserted_under_def filter_empty_conv)

lemma training_pairs_nth:
  "k \<le> length ws \<Longrightarrow> training_pairs ws ! k = (window_before ws k, (ws @ [NONWORD]) ! k)"
  unfolding training_pairs_def by (subst nth_map) (simp_all del: upt_Suc)

text \<open>
  Claim C5. The invariant of the prefix index after \<^verbatim>\<open>build\<close>. For every stream of words,
  \<^verbatim>\<open>build\<close> returns a table in which no two chain entries store the same prefix, and the
  prefixes stored are exactly the windows seen while training. The (prefix, suffix)
  records of the table are, as a multiset, exactly the training pairs: each word read,
  once, under the window immediately before it was read (pair number \<open>k\<close> for the word
  number \<open>k\<close>), and one more pair, the sentinel under the final window. The bag the
  generator reads for a window is the list of the suffixes inserted under it.
\<close>

theorem prefix_index_invariant:
  "\<exists>tab. build_words statetab_init ws = Some tab \<and>
     distinct (map prefix (entries tab)) \<and>
     set (map prefix (entries tab)) = fst ` set (training_pairs ws) \<and>
     mset (records_of (entries tab)) = mset (training_pairs ws) \<and>
     (\<forall>p. bag_of tab p =
        (if p \<in> fst ` set (training_pairs ws)
         then Some (rev (inserted_under (training_pairs ws) p)) else None)) \<and>
     length (training_pairs ws) = Suc (length ws) \<and>
     (\<forall>k. k < length ws \<longrightarrow> training_pairs ws ! k = (window_before ws k, ws ! k)) \<and>
     training_pairs ws ! length ws = (window_before ws (length ws), NONWORD)"
proof -
  from build_words_spec [of ws] obtain tab where
    t: "build_words statetab_init ws = Some tab" and inv: "statetab_inv tab" and
    b: "\<And>q. bag_of tab q =
        (if inserted_under (build_calls ws) q = [] then None
         else Some (rev (inserted_under (build_calls ws) q)))"
    by blast
  have bag: "bag_of tab p =
        (if p \<in> fst ` set (training_pairs ws)
         then Some (rev (inserted_under (training_pairs ws) p)) else None)" for p
    by (simp add: b training_pairs_calls inserted_under_Nil_iff)
  have pe: "p \<in> prefix ` set (entries tab) \<longleftrightarrow> p \<in> fst ` set (training_pairs ws)" for p
    unfolding prefixes_entries [OF inv] bag by simp
  have s: "set (map prefix (entries tab)) = fst ` set (training_pairs ws)"
  proof (rule set_eqI)
    fix p
    show "p \<in> set (map prefix (entries tab)) \<longleftrightarrow> p \<in> fst ` set (training_pairs ws)"
      using pe [of p] by simp
  qed
  have n: "training_pairs ws ! k = (window_before ws k, ws ! k)" if "k < length ws" for k
    using that by (simp add: training_pairs_nth nth_append)
  have l: "training_pairs ws ! length ws = (window_before ws (length ws), NONWORD)"
    by (simp add: training_pairs_nth)
  have len: "length (training_pairs ws) = Suc (length ws)"
    by (simp add: training_pairs_def del: upt_Suc)
  show ?thesis
  proof (intro exI conjI allI impI)
    show "build_words statetab_init ws = Some tab"
      by (rule t)
    show "distinct (map prefix (entries tab))"
      by (rule distinct_entries [OF inv])
    show "set (map prefix (entries tab)) = fst ` set (training_pairs ws)"
      by (rule s)
    show "mset (records_of (entries tab)) = mset (training_pairs ws)"
      by (rule build_words_records [OF t])
    show "bag_of tab p =
        (if p \<in> fst ` set (training_pairs ws)
         then Some (rev (inserted_under (training_pairs ws) p)) else None)" for p
      by (rule bag)
    show "length (training_pairs ws) = Suc (length ws)"
      by (rule len)
    show "training_pairs ws ! k = (window_before ws k, ws ! k)" if "k < length ws" for k
      using that by (rule n)
    show "training_pairs ws ! length ws = (window_before ws (length ws), NONWORD)"
      by (rule l)
  qed
qed

theorem prefix_index_invariant_witness:
  "\<exists>tab. build_words statetab_init [''a'', ''b''] = Some tab \<and>
     distinct (map prefix (entries tab)) \<and>
     mset (records_of (entries tab)) =
       mset [((NONWORD, NONWORD), ''a''), ((NONWORD, ''a''), ''b''), ((''a'', ''b''), NONWORD)] \<and>
     bag_of tab (''a'', ''b'') = Some [NONWORD] \<and>
     training_pairs [''a'', ''b''] ! 1 = ((NONWORD, ''a''), ''b'')"
proof -
  have tp: "training_pairs [''a'', ''b''] =
      [((NONWORD, NONWORD), ''a''), ((NONWORD, ''a''), ''b''), ((''a'', ''b''), NONWORD)]"
    by (simp add: training_pairs_calls build_calls_def)
  have ins: "inserted_under (training_pairs [''a'', ''b'']) (''a'', ''b'') = [NONWORD]"
    unfolding tp by (simp add: inserted_under_simps NONWORD_def)
  have mem: "(''a'', ''b'') \<in> fst ` set (training_pairs [''a'', ''b''])"
    unfolding tp by simp
  have w: "window_before [''a'', ''b''] (Suc 0) = (NONWORD, ''a'')"
    by (simp add: window_before_def slide_def)
  from prefix_index_invariant [of "[''a'', ''b'']"] show ?thesis
  proof (elim exE conjE)
    fix tab
    assume t: "build_words statetab_init [''a'', ''b''] = Some tab"
      and d: "distinct (map prefix (entries tab))"
      and m: "mset (records_of (entries tab)) = mset (training_pairs [''a'', ''b''])"
      and b: "\<forall>p. bag_of tab p =
        (if p \<in> fst ` set (training_pairs [''a'', ''b''])
         then Some (rev (inserted_under (training_pairs [''a'', ''b'']) p)) else None)"
      and n: "\<forall>k. k < length [''a'', ''b''] \<longrightarrow>
        training_pairs [''a'', ''b''] ! k = (window_before [''a'', ''b''] k, [''a'', ''b''] ! k)"
    from b have "bag_of tab (''a'', ''b'') =
        (if (''a'', ''b'') \<in> fst ` set (training_pairs [''a'', ''b''])
         then Some (rev (inserted_under (training_pairs [''a'', ''b'']) (''a'', ''b''))) else None)"
      by (rule spec)
    then have b': "bag_of tab (''a'', ''b'') = Some [NONWORD]"
      by (simp only: mem ins if_True rev.simps append_Nil)
    from n have "(1::nat) < length [''a'', ''b''] \<longrightarrow>
        training_pairs [''a'', ''b''] ! 1 = (window_before [''a'', ''b''] 1, [''a'', ''b''] ! 1)"
      by (rule spec)
    then have n': "training_pairs [''a'', ''b''] ! 1 = ((NONWORD, ''a''), ''b'')"
      by (simp add: w)
    from m have m': "mset (records_of (entries tab)) =
       mset [((NONWORD, NONWORD), ''a''), ((NONWORD, ''a''), ''b''), ((''a'', ''b''), NONWORD)]"
      by (simp only: tp)
    show ?thesis
      by (intro exI conjI) (rule t d m' b' n')+
  qed
qed

section \<open>A chain that cycles\<close>

text \<open>
  After \<^verbatim>\<open>build\<close> on the words a, a, a the window (a, a) has the bag sentinel, a. When
  every draw is 1 the walk always selects a, the window stays (a, a), and the sentinel
  is never sampled: the loop runs until its counter reaches \<open>nwords\<close>.
\<close>

lemma cycle_stops_at_limit:
  "build_then_generate [''a'', ''a'', ''a''] (sconst 1) 4 =
     Some \<lparr>emitted = [''a'', ''a'', ''a'', ''a''], stopped = StoppedByLengthLimit, iterations = 4\<rparr>"
proof -
  let ?ws = "[''a'', ''a'', ''a'']"
  have tp: "training_pairs ?ws =
      [((NONWORD, NONWORD), ''a''), ((NONWORD, ''a''), ''a''), ((''a'', ''a''), ''a''),
       ((''a'', ''a''), NONWORD)]"
    by (simp add: training_pairs_calls build_calls_def)
  have bags:
    "bag_after_build ?ws (NONWORD, NONWORD) = Some [''a'']"
    "bag_after_build ?ws (NONWORD, ''a'') = Some [''a'']"
    "bag_after_build ?ws (''a'', ''a'') = Some [NONWORD, ''a'']"
    by (simp_all add: bag_after_build_eq tp inserted_under_simps NONWORD_def)
  from build_words_spec [of ?ws] obtain tab where t: "build_words statetab_init ?ws = Some tab"
    by blast
  with bags have tb:
    "bag_of tab (NONWORD, NONWORD) = Some [''a'']"
    "bag_of tab (NONWORD, ''a'') = Some [''a'']"
    "bag_of tab (''a'', ''a'') = Some [NONWORD, ''a'']"
    by (simp_all add: bag_after_build_def)
  have nw: "''a'' \<noteq> NONWORD"
    by (simp add: NONWORD_def)
  have g: "generate tab (sconst 1) 4 =
     \<lparr>emitted = [''a'', ''a'', ''a'', ''a''], stopped = StoppedByLengthLimit, iterations = 4\<rparr>"
    unfolding generate_def
    apply (subst gen_loop_bag, simp add: tb nw)
    apply (subst gen_loop_bag, simp add: tb nw)
    apply (subst gen_loop_bag, simp add: tb nw)
    apply (subst gen_loop_bag, simp add: tb nw)
    apply (subst gen_loop_bag, simp add: tb nw)
    done
  show ?thesis
    by (simp only: build_then_generate_def t g option.case)
qed

section \<open>Runs on cells and pointers\<close>

lemma suffix_list_fresh:
  "suffix_list S suf l \<Longrightarrow> b \<notin> dom S \<Longrightarrow> suffix_list (S(b \<mapsto> x)) suf l"
proof (induction l arbitrary: suf)
  case Nil
  then show ?case by simp
next
  case (Cons w ws)
  from Cons.prems(1) obtain a sc where suf: "suf = Some a" and sc: "S a = Some sc"
    and w: "suffix_word sc = w" and tl: "suffix_list S (next_suffix sc) ws"
    by (auto split: option.splits)
  from sc Cons.prems(2) have "a \<noteq> b"
    by auto
  with suf sc w Cons.IH [OF tl Cons.prems(2)] show ?case
    by simp
qed

lemma state_chain_frame:
  assumes "state_chain m sp l"
    and "\<And>a c. State_at m a = Some c \<Longrightarrow> cell_prefix c \<in> prefix ` set l \<Longrightarrow> State_at m' a = Some c"
    and "\<And>suf ws. suffix_list (Suffix_at m) suf ws \<Longrightarrow> suffix_list (Suffix_at m') suf ws"
  shows "state_chain m' sp l"
  using assms(1,2)
proof (induction l arbitrary: sp)
  case Nil
  then show ?case by simp
next
  case (Cons st sts)
  from Cons.prems(1) obtain a c where sp: "sp = Some a" and c: "State_at m a = Some c"
    and pc: "cell_prefix c = prefix st"
    and sl: "suffix_list (Suffix_at m) (cell_suffixes c) (suffixes st)"
    and tl: "state_chain m (next_state c) sts"
    by (auto split: option.splits)
  have c': "State_at m' a = Some c"
    using c by (rule Cons.prems(2)) (simp add: pc)
  have tl': "state_chain m' (next_state c) sts"
    using tl by (rule Cons.IH) (rule Cons.prems(2), simp_all)
  from sp c' pc assms(3) [OF sl] tl' show ?case
    by simp
qed

lemma scan_chain_None:
  "state_chain m sp l \<Longrightarrow> find_state p l = None \<Longrightarrow> scan_chain m p sp = Some None"
proof (induction l arbitrary: sp)
  case Nil
  then show ?case by (simp add: scan_chain.simps)
next
  case (Cons st sts)
  from Cons.prems(1) obtain a c where sp: "sp = Some a" and c: "State_at m a = Some c"
    and pc: "cell_prefix c = prefix st" and tl: "state_chain m (next_state c) sts"
    by (auto split: option.splits)
  from Cons.prems(2) have ne: "\<not> (fst p = fst (prefix st) \<and> snd p = snd (prefix st))"
    and f: "find_state p sts = None"
    by (auto split: if_splits)
  from Cons.IH [OF tl f] sp c pc ne show ?case
    by (subst scan_chain.simps) simp
qed

lemma scan_chain_Some:
  "state_chain m sp l \<Longrightarrow> find_state p l = Some i \<Longrightarrow>
     \<exists>a c. scan_chain m p sp = Some (Some a) \<and> State_at m a = Some c \<and> cell_prefix c = p \<and>
       suffix_list (Suffix_at m) (cell_suffixes c) (suffixes (l ! i))"
proof (induction l arbitrary: sp i)
  case Nil
  then show ?case by simp
next
  case (Cons st sts)
  from Cons.prems(1) obtain a c where sp: "sp = Some a" and c: "State_at m a = Some c"
    and pc: "cell_prefix c = prefix st"
    and sl: "suffix_list (Suffix_at m) (cell_suffixes c) (suffixes st)"
    and tl: "state_chain m (next_state c) sts"
    by (auto split: option.splits)
  show ?case
  proof (cases "fst p = fst (prefix st) \<and> snd p = snd (prefix st)")
    case True
    with Cons.prems(2) have i: "i = 0"
      by simp
    from True have "p = prefix st"
      by (simp add: prod_eq_iff)
    with sp c pc sl i True show ?thesis
      by (subst scan_chain.simps) simp
  next
    case False
    with Cons.prems(2) obtain j where i: "i = Suc j" and f: "find_state p sts = Some j"
      by auto
    from Cons.IH [OF tl f] obtain a' c' where
      "scan_chain m p (next_state c) = Some (Some a')" "State_at m a' = Some c'" "cell_prefix c' = p"
      "suffix_list (Suffix_at m) (cell_suffixes c') (suffixes (sts ! j))"
      by blast
    moreover from False pc have nm: "(fst p = fst (cell_prefix c) \<and> snd p = snd (cell_prefix c)) = False"
      by simp
    have "scan_chain m p sp = scan_chain m p (next_state c)"
      unfolding sp by (subst scan_chain.simps) (simp only: c option.case nm if_False)
    ultimately show ?thesis
      using i by simp
  qed
qed

lemma state_chain_add_suffix:
  assumes "state_chain m sp l" and "distinct (map prefix l)" and "find_state p l = Some i"
    and "State_at m a = Some c" and "cell_prefix c = p"
    and "scan_chain m p sp = Some (Some a)"
    and "b \<notin> dom (Suffix_at m)"
    and "State_at m' = (State_at m)(a \<mapsto> c\<lparr>cell_suffixes := Some b\<rparr>)"
    and "Suffix_at m' = (Suffix_at m)(b \<mapsto> \<lparr>suffix_word = w, next_suffix = cell_suffixes c\<rparr>)"
  shows "state_chain m' sp (l[i := (l ! i)\<lparr>suffixes := w # suffixes (l ! i)\<rparr>])"
  using assms(1,2,3,6)
proof (induction l arbitrary: sp i)
  case Nil
  then show ?case by simp
next
  case (Cons st sts)
  from Cons.prems(1) obtain a0 c0 where sp: "sp = Some a0" and c0: "State_at m a0 = Some c0"
    and pc: "cell_prefix c0 = prefix st"
    and sl: "suffix_list (Suffix_at m) (cell_suffixes c0) (suffixes st)"
    and tl: "state_chain m (next_state c0) sts"
    by (auto split: option.splits)
  have fr: "suffix_list (Suffix_at m') suf ws" if "suffix_list (Suffix_at m) suf ws" for suf ws
    unfolding assms(9) using that assms(7) by (rule suffix_list_fresh)
  show ?case
  proof (cases "fst p = fst (prefix st) \<and> snd p = snd (prefix st)")
    case True
    with Cons.prems(3) have i: "i = 0"
      by simp
    from True have pst: "p = prefix st"
      by (simp add: prod_eq_iff)
    from Cons.prems(4) sp c0 pc True have a: "a = a0"
      by (subst (asm) scan_chain.simps) simp
    with c0 assms(4) have c: "c = c0"
      by simp
    from Cons.prems(2) pst have notin: "p \<notin> prefix ` set sts"
      by auto
    have tl': "state_chain m' (next_state c0) sts"
      using tl
    proof (rule state_chain_frame)
      fix a1 c1
      assume c1: "State_at m a1 = Some c1" and in_tl: "cell_prefix c1 \<in> prefix ` set sts"
      with notin assms(4,5) have "a1 \<noteq> a"
        by auto
      with c1 show "State_at m' a1 = Some c1"
        by (simp add: assms(8))
    next
      fix suf ws
      assume "suffix_list (Suffix_at m) suf ws"
      then show "suffix_list (Suffix_at m') suf ws"
        by (rule fr)
    qed
    have "suffix_list (Suffix_at m') (cell_suffixes c0) (suffixes st)"
      using sl by (rule fr)
    with sp a c pc tl' i show ?thesis
      by (simp add: assms(8,9))
  next
    case False
    with Cons.prems(3) obtain j where i: "i = Suc j" and f: "find_state p sts = Some j"
      by auto
    from False pc assms(5) have "prefix st \<noteq> p"
      by (auto simp: prod_eq_iff)
    with pc c0 assms(4,5) have ne: "a0 \<noteq> a"
      by auto
    from Cons.prems(4) sp c0 pc False have sc: "scan_chain m p (next_state c0) = Some (Some a)"
      by (subst (asm) scan_chain.simps) simp
    from Cons.prems(2) have d: "distinct (map prefix sts)"
      by simp
    have tl': "state_chain m' (next_state c0)
        (sts[j := (sts ! j)\<lparr>suffixes := w # suffixes (sts ! j)\<rparr>])"
      using tl d f sc by (rule Cons.IH)
    have "suffix_list (Suffix_at m') (cell_suffixes c0) (suffixes st)"
      using sl by (rule fr)
    with sp c0 ne pc tl' i show ?thesis
      by (simp add: assms(8))
  qed
qed


lemma never_twice_stl: "never_twice s \<Longrightarrow> never_twice (stl s)"
  unfolding never_twice_def
proof (intro allI impI)
  fix i j :: nat
  assume a: "\<forall>i j. i \<noteq> j \<longrightarrow> s !! i \<noteq> s !! j" and ne: "i \<noteq> j"
  from ne have "Suc i \<noteq> Suc j" by simp
  with a have "s !! Suc i \<noteq> s !! Suc j" by blast
  then show "stl s !! i \<noteq> stl s !! j" by simp
qed

lemma never_twice_shd: "never_twice s \<Longrightarrow> stl s !! i \<noteq> shd s"
proof -
  assume "never_twice s"
  then have "s !! Suc i \<noteq> s !! 0"
    unfolding never_twice_def by blast
  then show ?thesis by simp
qed

lemma add_p_found:
  assumes rep: "represents m tab" and f: "find_state p (tab (hash p)) = Some i"
  shows "\<exists>m'. add_p m p w = Some (m', (snd p, w)) \<and>
     represents m' (tab(hash p := (tab (hash p))[i := (tab (hash p) ! i)\<lparr>suffixes := w # suffixes (tab (hash p) ! i)\<rparr>]))"
proof -
  let ?h = "hash p"
  let ?l = "tab ?h"
  let ?s = "malloc_addrs m"
  let ?b = "shd ?s"
  let ?tab' = "tab(?h := ?l[i := (?l ! i)\<lparr>suffixes := w # suffixes (?l ! i)\<rparr>])"
  from rep have ch: "\<And>h. state_chain m (statetab_p m h) (tab h)" and inv: "statetab_inv tab"
    and nt: "never_twice ?s"
    and fr: "\<And>k. ?s !! k \<notin> dom (State_at m)" "\<And>k. ?s !! k \<notin> dom (Suffix_at m)"
    by (simp_all add: represents_def)
  from scan_chain_Some [OF ch [of ?h] f] obtain a c where
    sc: "scan_chain m p (statetab_p m ?h) = Some (Some a)" and c: "State_at m a = Some c"
    and pc: "cell_prefix c = p"
    by blast
  define m' where "m' = m\<lparr>malloc_addrs := stl ?s,
      Suffix_at := (Suffix_at m)(?b \<mapsto> \<lparr>suffix_word = w, next_suffix = cell_suffixes c\<rparr>),
      State_at := (State_at m)(a \<mapsto> c\<lparr>cell_suffixes := Some ?b\<rparr>)\<rparr>"
  have St: "State_at m' = (State_at m)(a \<mapsto> c\<lparr>cell_suffixes := Some ?b\<rparr>)"
    and Su: "Suffix_at m' = (Suffix_at m)(?b \<mapsto> \<lparr>suffix_word = w, next_suffix = cell_suffixes c\<rparr>)"
    and tb: "statetab_p m' = statetab_p m" and ma: "malloc_addrs m' = stl ?s"
    by (simp_all add: m'_def)
  have lk: "lookup_p m p True = Some (m, Some a)"
    by (simp add: lookup_p_def sc)
  have "add_suffix_p m (Some a) w = Some m'"
    by (simp add: add_suffix_p_def malloc_def c m'_def strdup_safe_def)
  with lk have eq: "add_p m p w = Some (m', (snd p, w))"
    by (simp add: add_p_def)
  from fr(2) [of 0] have bfresh: "?b \<notin> dom (Suffix_at m)"
    by simp
  have frS: "suffix_list (Suffix_at m') suf ws" if "suffix_list (Suffix_at m) suf ws" for suf ws
    unfolding Su using that bfresh by (rule suffix_list_fresh)
  from inv have dist: "distinct (map prefix ?l)" and hs: "\<And>h s. s \<in> set (tab h) \<Longrightarrow> hash (prefix s) = h"
    by (auto simp: statetab_inv_def)
  have chains: "state_chain m' (statetab_p m' h) (?tab' h)" for h
  proof (cases "h = ?h")
    case True
    have "state_chain m' (statetab_p m ?h) (?l[i := (?l ! i)\<lparr>suffixes := w # suffixes (?l ! i)\<rparr>])"
      using ch [of ?h] dist f c pc sc bfresh St Su by (rule state_chain_add_suffix)
    with True show ?thesis
      by (simp add: tb)
  next
    case False
    have "state_chain m' (statetab_p m h) (tab h)"
      using ch [of h]
    proof (rule state_chain_frame)
      fix a1 c1
      assume c1: "State_at m a1 = Some c1" and mem: "cell_prefix c1 \<in> prefix ` set (tab h)"
      from mem hs have "hash (cell_prefix c1) = h"
        by auto
      with False pc have "cell_prefix c1 \<noteq> cell_prefix c"
        by auto
      with c c1 have "a1 \<noteq> a"
        by auto
      with c1 show "State_at m' a1 = Some c1"
        by (simp add: St)
    next
      fix suf ws
      assume "suffix_list (Suffix_at m) suf ws"
      then show "suffix_list (Suffix_at m') suf ws"
        by (rule frS)
    qed
    with False show ?thesis
      by (simp add: tb)
  qed
  have "add tab p w = Some (?tab', (snd p, w))"
    using f by (rule add_found)
  with inv have inv': "statetab_inv ?tab'"
    by (rule add_inv)
  have nt': "never_twice (malloc_addrs m')"
    unfolding ma using nt by (rule never_twice_stl)
  have fresh': "malloc_addrs m' !! k \<notin> dom (State_at m') \<and> malloc_addrs m' !! k \<notin> dom (Suffix_at m')" for k
  proof -
    have "stl ?s !! k \<noteq> ?b"
      using nt by (rule never_twice_shd)
    moreover from c have "a \<in> dom (State_at m)"
      by auto
    moreover from fr(1) [of "Suc k"] fr(2) [of "Suc k"]
    have "stl ?s !! k \<notin> dom (State_at m)" "stl ?s !! k \<notin> dom (Suffix_at m)"
      by simp_all
    ultimately show ?thesis
      unfolding ma St Su by auto
  qed
  from chains inv' nt' fresh' have "represents m' ?tab'"
    unfolding represents_def by blast
  with eq show ?thesis
    by blast
qed


lemma add_p_created:
  assumes rep: "represents m tab" and f: "find_state p (tab (hash p)) = None"
  shows "\<exists>m'. add_p m p w = Some (m', (snd p, w)) \<and>
     represents m' (tab(hash p := \<lparr>prefix = p, suffixes = [w]\<rparr> # tab (hash p)))"
proof -
  let ?h = "hash p"
  let ?s = "malloc_addrs m"
  let ?a = "shd ?s"
  let ?b = "shd (stl ?s)"
  let ?c0 = "\<lparr>cell_prefix = p, cell_suffixes = None, next_state = statetab_p m ?h\<rparr>"
  let ?tab' = "tab(?h := \<lparr>prefix = p, suffixes = [w]\<rparr> # tab ?h)"
  from rep have ch: "\<And>h. state_chain m (statetab_p m h) (tab h)" and inv: "statetab_inv tab"
    and nt: "never_twice ?s"
    and fr: "\<And>k. ?s !! k \<notin> dom (State_at m)" "\<And>k. ?s !! k \<notin> dom (Suffix_at m)"
    by (simp_all add: represents_def)
  have sc: "scan_chain m p (statetab_p m ?h) = Some None"
    using ch [of ?h] f by (rule scan_chain_None)
  define m1 where "m1 = m\<lparr>malloc_addrs := stl ?s,
      State_at := (State_at m)(?a \<mapsto> ?c0),
      statetab_p := (statetab_p m)(?h := Some ?a)\<rparr>"
  define m' where "m' = m\<lparr>malloc_addrs := stl (stl ?s),
      State_at := (State_at m)(?a \<mapsto> ?c0\<lparr>cell_suffixes := Some ?b\<rparr>),
      statetab_p := (statetab_p m)(?h := Some ?a),
      Suffix_at := (Suffix_at m)(?b \<mapsto> \<lparr>suffix_word = w, next_suffix = None\<rparr>)\<rparr>"
  have St: "State_at m' = (State_at m)(?a \<mapsto> ?c0\<lparr>cell_suffixes := Some ?b\<rparr>)"
    and Su: "Suffix_at m' = (Suffix_at m)(?b \<mapsto> \<lparr>suffix_word = w, next_suffix = None\<rparr>)"
    and tb: "statetab_p m' = (statetab_p m)(?h := Some ?a)" and ma: "malloc_addrs m' = stl (stl ?s)"
    by (simp_all add: m'_def)
  have lk: "lookup_p m p True = Some (m1, Some ?a)"
    by (simp add: lookup_p_def Let_def sc malloc_def m1_def strdup_safe_def)
  have "add_suffix_p m1 (Some ?a) w = Some m'"
    by (simp add: add_suffix_p_def malloc_def m1_def m'_def strdup_safe_def)
  with lk have eq: "add_p m p w = Some (m', (snd p, w))"
    by (simp add: add_p_def)
  from fr(1) [of 0] have afresh: "?a \<notin> dom (State_at m)"
    by simp
  from fr(2) [of 1] have bfresh: "?b \<notin> dom (Suffix_at m)"
    by simp
  have frS: "suffix_list (Suffix_at m') suf ws" if "suffix_list (Suffix_at m) suf ws" for suf ws
    unfolding Su using that bfresh by (rule suffix_list_fresh)
  have old: "state_chain m' (statetab_p m h) (tab h)" for h
    using ch [of h]
  proof (rule state_chain_frame)
    fix a1 c1
    assume c1: "State_at m a1 = Some c1"
    with afresh have "a1 \<noteq> ?a"
      by auto
    with c1 show "State_at m' a1 = Some c1"
      by (simp add: St)
  next
    fix suf ws
    assume "suffix_list (Suffix_at m) suf ws"
    then show "suffix_list (Suffix_at m') suf ws"
      by (rule frS)
  qed
  have chains: "state_chain m' (statetab_p m' h) (?tab' h)" for h
  proof (cases "h = ?h")
    case True
    with old [of ?h] show ?thesis
      by (simp add: tb St Su)
  next
    case False
    with old [of h] show ?thesis
      by (simp add: tb)
  qed
  have "add tab p w = Some (?tab', (snd p, w))"
    using f by (rule add_created)
  with inv have inv': "statetab_inv ?tab'"
    by (rule add_inv)
  have nt': "never_twice (malloc_addrs m')"
    unfolding ma using nt by (intro never_twice_stl)
  have fresh': "malloc_addrs m' !! k \<notin> dom (State_at m') \<and> malloc_addrs m' !! k \<notin> dom (Suffix_at m')" for k
  proof -
    from never_twice_shd [OF nt, of "Suc k"] have "stl (stl ?s) !! k \<noteq> ?a"
      by simp
    moreover from never_twice_shd [OF never_twice_stl [OF nt], of k] have "stl (stl ?s) !! k \<noteq> ?b" .
    moreover from fr(1) [of "Suc (Suc k)"] fr(2) [of "Suc (Suc k)"]
    have "stl (stl ?s) !! k \<notin> dom (State_at m)" "stl (stl ?s) !! k \<notin> dom (Suffix_at m)"
      by simp_all
    ultimately show ?thesis
      unfolding ma St Su by auto
  qed
  from chains inv' nt' fresh' have "represents m' ?tab'"
    unfolding represents_def by blast
  with eq show ?thesis
    by blast
qed

lemma add_p_represents:
  assumes "represents m tab"
  shows "\<exists>m' tab'. add_p m p w = Some (m', (snd p, w)) \<and> add tab p w = Some (tab', (snd p, w)) \<and>
     represents m' tab'"
proof (cases "find_state p (tab (hash p))")
  case None
  have "add tab p w = Some (tab(hash p := \<lparr>prefix = p, suffixes = [w]\<rparr> # tab (hash p)), (snd p, w))"
    using None by (rule add_created)
  with add_p_created [OF assms None, of w] show ?thesis
    by blast
next
  case (Some i)
  have "add tab p w = Some (tab(hash p := (tab (hash p))[i := (tab (hash p) ! i)\<lparr>suffixes := w # suffixes (tab (hash p) ! i)\<rparr>]), (snd p, w))"
    using Some by (rule add_found)
  with add_p_found [OF assms Some, of w] show ?thesis
    by blast
qed

lemma add_words_p_represents:
  "represents m tab \<Longrightarrow>
   \<exists>m' tab' p'. add_words_p m p ws = Some (m', p') \<and> add_words tab p ws = Some (tab', p') \<and>
     represents m' tab'"
proof (induction ws arbitrary: m tab p)
  case Nil
  then show ?case by simp
next
  case (Cons w ws)
  from add_p_represents [OF Cons.prems, of p w] obtain m1 tab1 where
    a1: "add_p m p w = Some (m1, (snd p, w))" and a2: "add tab p w = Some (tab1, (snd p, w))"
    and r1: "represents m1 tab1"
    by blast
  from Cons.IH [OF r1, of "(snd p, w)"] obtain m' tab' p' where
    "add_words_p m1 (snd p, w) ws = Some (m', p')" "add_words tab1 (snd p, w) ws = Some (tab', p')"
    "represents m' tab'"
    by blast
  with a1 a2 show ?case
    by simp
qed

lemma memory_init_represents:
  "never_twice addrs \<Longrightarrow> represents (memory_init addrs) statetab_init"
  by (simp add: represents_def memory_init_def statetab_init_def statetab_init_inv [unfolded statetab_init_def])

lemma build_words_p_represents:
  assumes "never_twice addrs"
  shows "\<exists>m tab. build_words_p (memory_init addrs) ws = Some m \<and>
     build_words statetab_init ws = Some tab \<and> represents m tab"
proof -
  from add_words_p_represents [OF memory_init_represents [OF assms], of "(NONWORD, NONWORD)" ws]
  obtain m1 tab1 p1 where
    a1: "add_words_p (memory_init addrs) (NONWORD, NONWORD) ws = Some (m1, p1)"
    and a2: "add_words statetab_init (NONWORD, NONWORD) ws = Some (tab1, p1)"
    and r1: "represents m1 tab1"
    by blast
  from add_p_represents [OF r1, of p1 NONWORD] obtain m2 tab2 where
    "add_p m1 p1 NONWORD = Some (m2, (snd p1, NONWORD))"
    "add tab1 p1 NONWORD = Some (tab2, (snd p1, NONWORD))" "represents m2 tab2"
    by blast
  with a1 a2 show ?thesis
    by (simp add: build_words_p_def build_words_def)
qed


lemma count_suffixes_list:
  "suffix_list (Suffix_at m) suf l \<Longrightarrow> count_suffixes m suf n = Some (n + length l)"
proof (induction l arbitrary: suf n)
  case Nil
  then show ?case by (simp add: count_suffixes.simps)
next
  case (Cons w ws)
  from Cons.prems obtain b sc where suf: "suf = Some b" and sc: "Suffix_at m b = Some sc"
    and tl: "suffix_list (Suffix_at m) (next_suffix sc) ws"
    by (auto split: option.splits)
  from Cons.IH [OF tl, of "n + 1"] suf sc show ?case
    by (subst count_suffixes.simps) simp
qed

lemma walk_suffixes_list:
  "suffix_list (Suffix_at m) suf l \<Longrightarrow> r < length l \<Longrightarrow>
     \<exists>b sc. walk_suffixes m suf r = Some (Some b) \<and> Suffix_at m b = Some sc \<and> suffix_word sc = l ! r"
proof (induction l arbitrary: suf r)
  case Nil
  then show ?case by simp
next
  case (Cons w ws)
  from Cons.prems(1) obtain b sc where suf: "suf = Some b" and sc: "Suffix_at m b = Some sc"
    and w: "suffix_word sc = w" and tl: "suffix_list (Suffix_at m) (next_suffix sc) ws"
    by (auto split: option.splits)
  show ?case
  proof (cases r)
    case 0
    with suf sc w show ?thesis by simp
  next
    case (Suc j)
    with Cons.prems(2) have "j < length ws" by simp
    from Cons.IH [OF tl this] Suc suf sc show ?thesis
      by simp
  qed
qed

lemma gen_loop_p_represents:
  assumes rep: "represents m tab"
  shows "gen_loop_p m rnd i nwords p = gen_loop tab rnd i nwords p"
proof -
  from rep have ch: "\<And>h. state_chain m (statetab_p m h) (tab h)"
    by (simp add: represents_def)
  have "n = nat (nwords - i) \<Longrightarrow> gen_loop_p m rnd i nwords p = gen_loop tab rnd i nwords p" for n
  proof (induction n arbitrary: rnd i p)
    case 0
    then have "\<not> i < nwords" by simp
    then show ?case
      by (simp add: gen_loop_p.simps [of m rnd i nwords p] gen_loop_bag [of tab rnd i nwords p])
  next
    case (Suc n)
    from Suc.prems have lt: "i < nwords" and n: "n = nat (nwords - (i + 1))"
      by simp_all
    have ih: "gen_loop_p m (stl rnd) (i + 1) nwords q = gen_loop tab (stl rnd) (i + 1) nwords q" for q
      using n by (rule Suc.IH)
    show ?case
    proof (cases "find_state p (tab (hash p))")
      case None
      have "scan_chain m p (statetab_p m (hash p)) = Some None"
        using ch [of "hash p"] None by (rule scan_chain_None)
      then have "lookup_p m p False = Some (m, None)"
        by (simp add: lookup_p_def)
      moreover from None have "bag_of tab p = None"
        by (simp add: bag_of_find)
      ultimately show ?thesis
        using lt by (simp add: gen_loop_p.simps [of m rnd i nwords p] gen_loop_bag [of tab rnd i nwords p])
    next
      case (Some k)
      let ?sufs = "suffixes (tab (hash p) ! k)"
      from scan_chain_Some [OF ch [of "hash p"] Some] obtain a c where
        sc: "scan_chain m p (statetab_p m (hash p)) = Some (Some a)" and c: "State_at m a = Some c"
        and sl: "suffix_list (Suffix_at m) (cell_suffixes c) ?sufs"
        by blast
      from sc have lk: "lookup_p m p False = Some (m, Some a)"
        by (simp add: lookup_p_def)
      from Some have bag: "bag_of tab p = Some ?sufs"
        by (simp add: bag_of_find)
      from count_suffixes_list [OF sl, of 0] have cnt: "count_suffixes m (cell_suffixes c) 0 = Some (length ?sufs)"
        by simp
      show ?thesis
      proof (cases "?sufs = []")
        case True
        with lt lk c cnt bag show ?thesis
          by (simp add: gen_loop_p.simps [of m rnd i nwords p] gen_loop_bag [of tab rnd i nwords p])
      next
        case False
        then have r: "shd rnd mod length ?sufs < length ?sufs"
          by simp
        from walk_suffixes_list [OF sl r] obtain b cell where
          wk: "walk_suffixes m (cell_suffixes c) (shd rnd mod length ?sufs) = Some (Some b)"
          and cell: "Suffix_at m b = Some cell"
          and wd: "suffix_word cell = ?sufs ! (shd rnd mod length ?sufs)"
          by blast
        from r have ns: "nth_suffix ?sufs (shd rnd mod length ?sufs) = Some (?sufs ! (shd rnd mod length ?sufs))"
          by (simp add: nth_suffix_conv)
        from lt lk c cnt bag False wk cell wd ns show ?thesis
          by (simp add: gen_loop_p.simps [of m rnd i nwords p] gen_loop_bag [of tab rnd i nwords p] ih Let_def)
      qed
    qed
  qed
  then show ?thesis by simp
qed

lemma main_p_refines:
  assumes "never_twice addrs"
  shows "main_p addrs ws rnd nwords = build_then_generate ws rnd nwords"
proof -
  from build_words_p_represents [OF assms, of ws] obtain m tab where
    "build_words_p (memory_init addrs) ws = Some m" "build_words statetab_init ws = Some tab"
    "represents m tab"
    by blast
  then show ?thesis
    by (simp add: main_p_def build_then_generate_def generate_p_def generate_def gen_loop_p_represents)
qed

lemma aaab_runs:
  "build_then_generate [''a'', ''a'', ''a'', ''b''] (sconst 0) 3 =
     Some \<lparr>emitted = [''a'', ''a'', ''b''], stopped = StoppedByLengthLimit, iterations = 3\<rparr>"
  "build_then_generate [''a'', ''a'', ''a'', ''b''] (sconst 1) 3 =
     Some \<lparr>emitted = [''a'', ''a'', ''a''], stopped = StoppedByLengthLimit, iterations = 3\<rparr>"
proof -
  let ?ws = "[''a'', ''a'', ''a'', ''b'']"
  have bags:
    "bag_after_build ?ws (NONWORD, NONWORD) = Some [''a'']"
    "bag_after_build ?ws (NONWORD, ''a'') = Some [''a'']"
    "bag_after_build ?ws (''a'', ''a'') = Some [''b'', ''a'']"
    by (simp_all add: bag_after_build_eq aaab_pairs inserted_under_simps NONWORD_def)
  from build_words_spec [of ?ws] obtain tab where t: "build_words statetab_init ?ws = Some tab"
    by blast
  with bags have tb:
    "bag_of tab (NONWORD, NONWORD) = Some [''a'']"
    "bag_of tab (NONWORD, ''a'') = Some [''a'']"
    "bag_of tab (''a'', ''a'') = Some [''b'', ''a'']"
    by (simp_all add: bag_after_build_def)
  have nw: "''a'' \<noteq> NONWORD" "''b'' \<noteq> NONWORD"
    by (simp_all add: NONWORD_def)
  have g0: "generate tab (sconst 0) 3 =
     \<lparr>emitted = [''a'', ''a'', ''b''], stopped = StoppedByLengthLimit, iterations = 3\<rparr>"
    unfolding generate_def
    apply (subst gen_loop_bag, simp add: tb nw)
    apply (subst gen_loop_bag, simp add: tb nw)
    apply (subst gen_loop_bag, simp add: tb nw)
    apply (subst gen_loop_bag, simp add: tb nw)
    done
  have g1: "generate tab (sconst 1) 3 =
     \<lparr>emitted = [''a'', ''a'', ''a''], stopped = StoppedByLengthLimit, iterations = 3\<rparr>"
    unfolding generate_def
    apply (subst gen_loop_bag, simp add: tb nw)
    apply (subst gen_loop_bag, simp add: tb nw)
    apply (subst gen_loop_bag, simp add: tb nw)
    apply (subst gen_loop_bag, simp add: tb nw)
    done
  show "build_then_generate ?ws (sconst 0) 3 =
     Some \<lparr>emitted = [''a'', ''a'', ''b''], stopped = StoppedByLengthLimit, iterations = 3\<rparr>"
    by (simp only: build_then_generate_def t g0 option.case)
  show "build_then_generate ?ws (sconst 1) 3 =
     Some \<lparr>emitted = [''a'', ''a'', ''a''], stopped = StoppedByLengthLimit, iterations = 3\<rparr>"
    by (simp only: build_then_generate_def t g1 option.case)
qed

lemma never_twice_examples:
  "never_twice (siterate Suc 0)"
  "never_twice (smap (\<lambda>n. 2 * n + 100) (siterate Suc 0))"
  by (simp_all add: never_twice_def)

text \<open>
  Claim C9. Determinism under fixed randomness. Take two runs of the program on cells
  and pointers with the same training words, the same \<open>nwords\<close> and the same sequence of
  random draws; the runs may get different addresses from \<^verbatim>\<open>malloc\<close>. Both runs return, and
  they return the same result: the same words emitted, the same exit and the same number
  of iterations. That result is the one the list model computes from the words, the
  draws and \<open>nwords\<close> alone.
\<close>

theorem runs_deterministic:
  assumes "never_twice addrs1" and "never_twice addrs2"
  shows "main_p addrs1 ws rnd nwords = main_p addrs2 ws rnd nwords \<and>
         (\<exists>res. main_p addrs1 ws rnd nwords = Some res) \<and>
         main_p addrs1 ws rnd nwords = build_then_generate ws rnd nwords"
proof -
  from build_then_generate_Some [of ws rnd nwords] obtain res where
    "build_then_generate ws rnd nwords = Some res"
    by blast
  with main_p_refines [OF assms(1), of ws rnd nwords] main_p_refines [OF assms(2), of ws rnd nwords]
  show ?thesis
    by simp
qed

theorem runs_deterministic_witness:
  "never_twice (siterate Suc 0) \<and>
   never_twice (smap (\<lambda>n. 2 * n + 100) (siterate Suc 0)) \<and>
   main_p (siterate Suc 0) [''a'', ''a'', ''a'', ''b''] (sconst 0) 3 =
     main_p (smap (\<lambda>n. 2 * n + 100) (siterate Suc 0)) [''a'', ''a'', ''a'', ''b''] (sconst 0) 3 \<and>
   main_p (siterate Suc 0) [''a'', ''a'', ''a'', ''b''] (sconst 0) 3 =
     Some \<lparr>emitted = [''a'', ''a'', ''b''], stopped = StoppedByLengthLimit, iterations = 3\<rparr> \<and>
   main_p (siterate Suc 0) [''a'', ''a'', ''a'', ''b''] (sconst 1) 3 =
     main_p (smap (\<lambda>n. 2 * n + 100) (siterate Suc 0)) [''a'', ''a'', ''a'', ''b''] (sconst 1) 3 \<and>
   main_p (siterate Suc 0) [''a'', ''a'', ''a'', ''b''] (sconst 1) 3 =
     Some \<lparr>emitted = [''a'', ''a'', ''a''], stopped = StoppedByLengthLimit, iterations = 3\<rparr>"
proof -
  note d0 = runs_deterministic [OF never_twice_examples(1) never_twice_examples(2),
      of "[''a'', ''a'', ''a'', ''b'']" "sconst 0" 3]
  note d1 = runs_deterministic [OF never_twice_examples(1) never_twice_examples(2),
      of "[''a'', ''a'', ''a'', ''b'']" "sconst 1" 3]
  from d0 have e0: "main_p (siterate Suc 0) [''a'', ''a'', ''a'', ''b''] (sconst 0) 3 =
     main_p (smap (\<lambda>n. 2 * n + 100) (siterate Suc 0)) [''a'', ''a'', ''a'', ''b''] (sconst 0) 3"
    by (rule conjunct1)
  from d1 have e1: "main_p (siterate Suc 0) [''a'', ''a'', ''a'', ''b''] (sconst 1) 3 =
     main_p (smap (\<lambda>n. 2 * n + 100) (siterate Suc 0)) [''a'', ''a'', ''a'', ''b''] (sconst 1) 3"
    by (rule conjunct1)
  have v0: "main_p (siterate Suc 0) [''a'', ''a'', ''a'', ''b''] (sconst 0) 3 =
     Some \<lparr>emitted = [''a'', ''a'', ''b''], stopped = StoppedByLengthLimit, iterations = 3\<rparr>"
    using conjunct2 [OF conjunct2 [OF d0]] aaab_runs(1) by (rule trans)
  have v1: "main_p (siterate Suc 0) [''a'', ''a'', ''a'', ''b''] (sconst 1) 3 =
     Some \<lparr>emitted = [''a'', ''a'', ''a''], stopped = StoppedByLengthLimit, iterations = 3\<rparr>"
    using conjunct2 [OF conjunct2 [OF d1]] aaab_runs(2) by (rule trans)
  show ?thesis
    by (intro conjI) (rule never_twice_examples e0 e1 v0 v1)+
qed

end
